theory Spec2Isabelle
  imports Main "HOL-Library.Word"
begin

unbundle bit_operations_syntax

section \<open>Machine types\<close>

text \<open>
  The library is C.  \<open>size_t\<close> is modelled as a 64-bit word (LP64), so that \<open>+\<close>, \<open>-\<close>
  and \<open>*\<close> wrap as unsigned C arithmetic does.  A \<open>char *\<close> or \<open>void *\<close> is the address
  it holds, again a 64-bit word, with \<open>NULL\<close> the address 0; pointer arithmetic and pointer
  comparison are arithmetic and comparison of addresses in a flat address space.
  \<open>unsigned int\<close> is a 32-bit word.

  A function returning \<open>membath_s *\<close> (and so on) returns either its argument or \<open>NULL\<close>;
  the model returns a \<open>bool\<close> (\<open>True\<close>: the argument, \<open>False\<close>: \<open>NULL\<close>) next to the
  updated structure.  Undefined behaviour of the C program (a null or out-of-bounds array
  access, a division by zero) is a value of type \<open>fault\<close>.  The library itself never
  produces \<open>Not_Live\<close>: it marks a client that releases an address it does not hold.
\<close>

type_synonym size_t = "64 word"
type_synonym addr = "64 word"
type_synonym uint = "32 word"

datatype fault = Null_Deref | Out_Of_Bounds | Div_By_Zero | Not_Live

definition NULL :: addr where
  "NULL = 0"

section \<open>bitarray.h\<close>

text \<open>
  A bit-array is an \<open>unsigned int *\<close>: \<open>None\<close> is the null pointer, \<open>Some ar\<close> an array
  of \<open>length ar\<close> words.  \<open>BITARRAY_INTBITS\<close> is \<open>sizeof(unsigned int) * CHAR_BIT\<close>, a
  \<open>size_t\<close>.  \<open>bitArray_mask\<close> is \<open>1 << (bit % BITARRAY_INTBITS)\<close>, taken as a shift within
  the 32 bits of the array element.
\<close>

type_synonym bitarray = "uint list option"

definition BITARRAY_INTBITS :: size_t where
  "BITARRAY_INTBITS = 32"

definition bitArray_mask :: "size_t \<Rightarrow> uint" where
  "bitArray_mask b = push_bit (unat (b mod BITARRAY_INTBITS)) 1"

definition bitArray_slot :: "size_t \<Rightarrow> nat" where
  "bitArray_slot b = unat (b div BITARRAY_INTBITS)"

definition bitArray_size :: "size_t \<Rightarrow> size_t" where
  "bitArray_size sz = (sz + BITARRAY_INTBITS - 1) div BITARRAY_INTBITS"

definition bitArray_test :: "bitarray \<Rightarrow> size_t \<Rightarrow> fault + bool" where
  "bitArray_test um b =
     (case um of
        None \<Rightarrow> Inl Null_Deref
      | Some ar \<Rightarrow>
          if bitArray_slot b < length ar
          then Inr (ar ! bitArray_slot b AND bitArray_mask b \<noteq> 0)
          else Inl Out_Of_Bounds)"

definition bitArray_set :: "bitarray \<Rightarrow> size_t \<Rightarrow> fault + bitarray" where
  "bitArray_set um b =
     (case um of
        None \<Rightarrow> Inl Null_Deref
      | Some ar \<Rightarrow>
          if bitArray_slot b < length ar
          then Inr (Some (ar[bitArray_slot b := ar ! bitArray_slot b OR bitArray_mask b]))
          else Inl Out_Of_Bounds)"

definition bitArray_clear :: "bitarray \<Rightarrow> size_t \<Rightarrow> fault + bitarray" where
  "bitArray_clear um b =
     (case um of
        None \<Rightarrow> Inl Null_Deref
      | Some ar \<Rightarrow>
          if bitArray_slot b < length ar
          then Inr (Some (ar[bitArray_slot b := ar ! bitArray_slot b AND NOT (bitArray_mask b)]))
          else Inl Out_Of_Bounds)"

text \<open>The number of bits set in the words of a bit-array.\<close>

definition word_popcount :: "uint \<Rightarrow> nat" where
  "word_popcount w = length (filter (bit w) [0..<32])"

definition bitArray_count :: "bitarray \<Rightarrow> nat" where
  "bitArray_count um = (case um of None \<Rightarrow> 0 | Some ar \<Rightarrow> sum_list (map word_popcount ar))"

section \<open>Bath: a fixed number of equally sized slots\<close>

record membath =
  bath_size :: size_t
  bath_itemSize :: size_t
  bath_length :: size_t
  bath_firstFree :: size_t
  bath_useMap :: bitarray
  bath_data :: addr

text \<open>
  \<open>membath_init\<close> writes into caller-provided storage \<open>bath\<close>, whose previous contents
  survive where the function does not assign.  \<open>calloc_ok\<close> says whether \<open>calloc\<close> for
  the use-map succeeds, \<open>mp\<close> is what \<open>malloc(size * itemSize)\<close> returns.
\<close>

definition membath_init :: "membath \<Rightarrow> size_t \<Rightarrow> size_t \<Rightarrow> bool \<Rightarrow> addr \<Rightarrow> bool \<times> membath" where
  "membath_init bath sz isz calloc_ok mp =
     (let bath = bath\<lparr>bath_size := sz, bath_itemSize := isz, bath_length := 0, bath_firstFree := 0\<rparr>;
          bitSize = bitArray_size (bath_size bath);
          bath = bath\<lparr>bath_useMap := (if calloc_ok then Some (replicate (unat bitSize) 0) else None)\<rparr>
      in if bath_useMap bath = None then (False, bath)
         else let bath = bath\<lparr>bath_data := mp\<rparr>
              in if bath_data bath = NULL then (False, bath) else (True, bath))"

text \<open>
  The loop of \<open>membath_alloc\<close>: \<open>for(i = item; i < size; i++) if(!test(useMap, i)) {firstFree = i; break;}\<close>.
  It returns the index found, or \<open>None\<close> when it runs off the end of the bath.
\<close>

function membath_alloc_scan :: "bitarray \<Rightarrow> size_t \<Rightarrow> size_t \<Rightarrow> fault + size_t option" where
  "membath_alloc_scan um i sz =
     (if i < sz
      then (case bitArray_test um i of
              Inl e \<Rightarrow> Inl e
            | Inr t \<Rightarrow> if \<not> t then Inr (Some i) else membath_alloc_scan um (i + 1) sz)
      else Inr None)"
  by pat_completeness auto
termination
proof (relation "measure (\<lambda>(um, i, sz). unat sz - unat i)")
  show "wf (measure (\<lambda>(um, i, sz). unat sz - unat i))"
    by simp
next
  fix um :: bitarray and i sz :: size_t and t :: bool
  assume "i < sz"
  then have "unat i < unat sz"
    by (simp add: word_less_nat_alt)
  moreover from \<open>i < sz\<close> have "unat (i + 1) = unat i + 1"
    by unat_arith
  ultimately show "((um, i + 1, sz), (um, i, sz)) \<in> measure (\<lambda>(um, i, sz). unat sz - unat i)"
    by simp
qed

declare membath_alloc_scan.simps [simp del]

definition membath_alloc :: "membath \<Rightarrow> fault + (addr \<times> membath)" where
  "membath_alloc bath =
     (if bath_length bath \<ge> bath_size bath then Inr (NULL, bath)
      else
        let item = bath_firstFree bath in
        case bitArray_set (bath_useMap bath) item of
          Inl e \<Rightarrow> Inl e
        | Inr um \<Rightarrow>
            (case membath_alloc_scan um item (bath_size bath) of
               Inl e \<Rightarrow> Inl e
             | Inr found \<Rightarrow>
                 Inr (bath_data bath + item * bath_itemSize bath,
                      bath\<lparr>bath_useMap := um,
                           bath_firstFree := (case found of None \<Rightarrow> bath_firstFree bath | Some i \<Rightarrow> i),
                           bath_length := bath_length bath + 1\<rparr>)))"

text \<open>
  \<open>membath_release\<close>, the branch compiled without \<open>USE_INTPTR\<close>.  \<open>itemOffset\<close> is a
  \<open>ptrdiff_t\<close>: its test against 0 is signed, its comparison with and division by a
  \<open>size_t\<close> are unsigned.
\<close>

definition membath_release :: "membath \<Rightarrow> addr \<Rightarrow> fault + (bool \<times> membath)" where
  "membath_release bath vptr =
     (let ptr = vptr;
          end = bath_data bath + bath_size bath * bath_itemSize bath
      in if ptr < bath_data bath \<or> ptr > end then Inr (False, bath)
         else
           let itemOffset = ptr - bath_data bath
           in if sint itemOffset < 0 \<or> itemOffset > bath_size bath * bath_itemSize bath
              then Inr (False, bath)
              else if bath_itemSize bath = 0 then Inl Div_By_Zero
              else
                let item = itemOffset div bath_itemSize bath;
                    bath = (if item < bath_firstFree bath then bath\<lparr>bath_firstFree := item\<rparr> else bath)
                in case bitArray_clear (bath_useMap bath) item of
                     Inl e \<Rightarrow> Inl e
                   | Inr um \<Rightarrow> Inr (True, bath\<lparr>bath_useMap := um, bath_length := bath_length bath - 1\<rparr>))"

section \<open>The allocator underneath\<close>

text \<open>
  \<open>malloc\<close>, \<open>calloc\<close> and \<open>realloc\<close> are the environment of the library.  Each call
  of a library function that may reach them takes a \<open>heap_env\<close> holding their answers:
  whether the (re)allocation of the member array succeeds, what the storage of a new array
  element holds before it is initialised, whether \<open>calloc\<close> succeeds, and the address
  \<open>malloc\<close> returns for a data buffer (\<open>NULL\<close> when it fails).  A member array is the list
  of its elements; the null array pointer is the array of no elements.
\<close>

record 'a heap_env =
  array_ok :: bool
  fresh :: 'a
  calloc_ok :: bool
  malloc_ptr :: addr

definition realloc_array :: "'a list \<Rightarrow> nat \<Rightarrow> 'a \<Rightarrow> 'a list" where
  "realloc_array xs n junk = take n xs @ replicate (n - length xs) junk"

section \<open>Pool: a growing array of baths\<close>

record mempool =
  pool_length :: size_t
  pool_bathSize :: size_t
  pool_itemSize :: size_t
  pool_baths :: "membath list"

definition bath_at :: "mempool \<Rightarrow> size_t \<Rightarrow> fault + membath" where
  "bath_at pool i =
     (if unat i < length (pool_baths pool) then Inr (pool_baths pool ! unat i) else Inl Out_Of_Bounds)"

definition mempool_init :: "membath heap_env \<Rightarrow> mempool \<Rightarrow> size_t \<Rightarrow> size_t \<Rightarrow> bool \<times> mempool" where
  "mempool_init env pool bathSize itemSize =
     (let pool = pool\<lparr>pool_length := 1, pool_bathSize := bathSize, pool_itemSize := itemSize\<rparr>
      in if \<not> array_ok env then (False, pool\<lparr>pool_baths := []\<rparr>)
         else
           let pool = pool\<lparr>pool_baths := replicate (unat (pool_length pool)) (fresh env)\<rparr>;
               (ok, b) = membath_init (pool_baths pool ! 0) bathSize itemSize (calloc_ok env) (malloc_ptr env);
               pool = pool\<lparr>pool_baths := (pool_baths pool)[0 := b]\<rparr>
           in if \<not> ok then (False, pool) else (True, pool))"

definition mempool_alloc :: "membath heap_env \<Rightarrow> mempool \<Rightarrow> fault + (addr \<times> mempool)" where
  "mempool_alloc env pool =
     (case bath_at pool (pool_length pool - 1) of
        Inl e \<Rightarrow> Inl e
      | Inr lb \<Rightarrow>
          (case membath_alloc lb of
             Inl e \<Rightarrow> Inl e
           | Inr (ret, lb') \<Rightarrow>
               let pool = pool\<lparr>pool_baths := (pool_baths pool)[unat (pool_length pool - 1) := lb']\<rparr>
               in if ret \<noteq> NULL then Inr (ret, pool)
                  else
                    let len = pool_length pool + 1;
                        pool = pool\<lparr>pool_length := len\<rparr>
                    in if \<not> array_ok env then Inr (NULL, pool)
                       else
                         let pool = pool\<lparr>pool_baths := realloc_array (pool_baths pool) (unat len) (fresh env)\<rparr>
                         in case bath_at pool (len - 1) of
                              Inl e \<Rightarrow> Inl e
                            | Inr nb \<Rightarrow>
                                let (ok, nb) = membath_init nb (pool_bathSize pool) (pool_itemSize pool)
                                                 (calloc_ok env) (malloc_ptr env)
                                in case membath_alloc nb of
                                     Inl e \<Rightarrow> Inl e
                                   | Inr (ret, nb') \<Rightarrow>
                                       Inr (ret, pool\<lparr>pool_baths := (pool_baths pool)[unat (len - 1) := nb']\<rparr>)))"

text \<open>The loop of \<open>mempool_release\<close>, from index \<open>i\<close> on.\<close>

function mempool_release_scan :: "mempool \<Rightarrow> addr \<Rightarrow> size_t \<Rightarrow> fault + (bool \<times> mempool)" where
  "mempool_release_scan pool ptr i =
     (if i < pool_length pool
      then (case bath_at pool i of
              Inl e \<Rightarrow> Inl e
            | Inr bath \<Rightarrow>
                (case membath_release bath ptr of
                   Inl e \<Rightarrow> Inl e
                 | Inr (r, bath') \<Rightarrow>
                     if r then Inr (True, pool\<lparr>pool_baths := (pool_baths pool)[unat i := bath']\<rparr>)
                     else mempool_release_scan
                            (pool\<lparr>pool_baths := (pool_baths pool)[unat i := bath']\<rparr>) ptr (i + 1)))
      else Inr (False, pool))"
  by pat_completeness auto
termination
proof (relation "measure (\<lambda>(pool, ptr, i). unat (pool_length pool) - unat i)")
  show "wf (measure (\<lambda>(pool, ptr, i). unat (pool_length pool) - unat i))"
    by simp
next
  fix pool :: mempool and ptr :: addr and i :: size_t and bath' :: membath
  assume "i < pool_length pool"
  then have "unat i < unat (pool_length pool)"
    by (simp add: word_less_nat_alt)
  moreover from \<open>i < pool_length pool\<close> have "unat (i + 1) = unat i + 1"
    by unat_arith
  ultimately show "((pool\<lparr>pool_baths := (pool_baths pool)[unat i := bath']\<rparr>, ptr, i + 1), (pool, ptr, i))
      \<in> measure (\<lambda>(pool, ptr, i). unat (pool_length pool) - unat i)"
    by simp
qed

declare mempool_release_scan.simps [simp del]

definition mempool_release :: "mempool \<Rightarrow> addr \<Rightarrow> fault + (bool \<times> mempool)" where
  "mempool_release pool ptr =
     (if ptr = NULL then Inr (False, pool) else mempool_release_scan pool ptr 0)"

section \<open>Creek: a buffer filled from the front\<close>

record memcreek =
  creek_size :: size_t
  creek_length :: size_t
  creek_data :: addr

definition memcreek_init :: "memcreek \<Rightarrow> size_t \<Rightarrow> addr \<Rightarrow> bool \<times> memcreek" where
  "memcreek_init creek sz mp =
     (let creek = creek\<lparr>creek_size := sz, creek_length := 0, creek_data := mp\<rparr>
      in if creek_data creek = NULL then (False, creek) else (True, creek))"

definition memcreek_alloc :: "memcreek \<Rightarrow> size_t \<Rightarrow> addr \<times> memcreek" where
  "memcreek_alloc creek sz =
     (if creek_size creek - creek_length creek < sz then (NULL, creek)
      else (creek_data creek + creek_length creek,
            creek\<lparr>creek_length := creek_length creek + sz\<rparr>))"

section \<open>River: a growing array of creeks\<close>

record memriver =
  riv_length :: size_t
  riv_creekSize :: size_t
  riv_creeks :: "memcreek list"

definition creek_at :: "memriver \<Rightarrow> size_t \<Rightarrow> fault + memcreek" where
  "creek_at riv i =
     (if unat i < length (riv_creeks riv) then Inr (riv_creeks riv ! unat i) else Inl Out_Of_Bounds)"

definition memriver_init :: "memcreek heap_env \<Rightarrow> memriver \<Rightarrow> size_t \<Rightarrow> bool \<times> memriver" where
  "memriver_init env riv creekSize =
     (let riv = riv\<lparr>riv_creekSize := creekSize, riv_length := 1\<rparr>
      in if \<not> array_ok env then (False, riv\<lparr>riv_creeks := []\<rparr>)
         else
           let riv = riv\<lparr>riv_creeks := replicate (unat (riv_length riv)) (fresh env)\<rparr>;
               (ok, c) = memcreek_init (riv_creeks riv ! 0) creekSize (malloc_ptr env)
           in (True, riv\<lparr>riv_creeks := (riv_creeks riv)[0 := c]\<rparr>))"

text \<open>
  \<open>addCreek\<close> returns a pointer to the new creek or \<open>NULL\<close>: the model returns the index
  of that creek in the array, or \<open>None\<close>.
\<close>

definition addCreek :: "memcreek heap_env \<Rightarrow> memriver \<Rightarrow> size_t \<Rightarrow> fault + (nat option \<times> memriver)" where
  "addCreek env riv sz =
     (let len = riv_length riv + 1;
          riv = riv\<lparr>riv_length := len\<rparr>
      in if \<not> array_ok env then Inr (None, riv)
         else
           let riv = riv\<lparr>riv_creeks := realloc_array (riv_creeks riv) (unat len) (fresh env)\<rparr>
           in case creek_at riv (len - 1) of
                Inl e \<Rightarrow> Inl e
              | Inr c \<Rightarrow>
                  let (ok, c') = memcreek_init c sz (malloc_ptr env)
                  in Inr (Some (unat (len - 1)),
                          riv\<lparr>riv_creeks := (riv_creeks riv)[unat (len - 1) := c']\<rparr>))"

text \<open>The loop of \<open>memriver_alloc\<close> over the creeks, last to first, from \<open>i\<close> down.\<close>

function memriver_alloc_scan :: "memriver \<Rightarrow> size_t \<Rightarrow> size_t \<Rightarrow> fault + (addr \<times> memriver)" where
  "memriver_alloc_scan riv sz i =
     (if i > 0
      then (case creek_at riv (i - 1) of
              Inl e \<Rightarrow> Inl e
            | Inr c \<Rightarrow>
                (case memcreek_alloc c sz of
                   (ret, c') \<Rightarrow>
                     if ret \<noteq> NULL
                     then Inr (ret, riv\<lparr>riv_creeks := (riv_creeks riv)[unat (i - 1) := c']\<rparr>)
                     else memriver_alloc_scan
                            (riv\<lparr>riv_creeks := (riv_creeks riv)[unat (i - 1) := c']\<rparr>) sz (i - 1)))
      else Inr (NULL, riv))"
  by pat_completeness auto
termination
proof (relation "measure (\<lambda>(riv, sz, i). unat i)")
  show "wf (measure (\<lambda>(riv, sz, i). unat i))"
    by simp
next
  fix riv :: memriver and sz i :: size_t and c' :: memcreek
  assume "0 < i"
  then have "unat (i - 1) < unat i"
    by unat_arith
  then show "((riv\<lparr>riv_creeks := (riv_creeks riv)[unat (i - 1) := c']\<rparr>, sz, i - 1), (riv, sz, i))
      \<in> measure (\<lambda>(riv, sz, i). unat i)"
    by simp
qed

declare memriver_alloc_scan.simps [simp del]

text \<open>The two places where \<open>memriver_alloc\<close> adds a creek of \<open>csz\<close> bytes and allocates from it.\<close>

definition memriver_alloc_new :: "memcreek heap_env \<Rightarrow> memriver \<Rightarrow> size_t \<Rightarrow> size_t \<Rightarrow> fault + (addr \<times> memriver)" where
  "memriver_alloc_new env riv csz sz =
     (case addCreek env riv csz of
        Inl e \<Rightarrow> Inl e
      | Inr (crk, riv) \<Rightarrow>
          (case crk of
             Some k \<Rightarrow>
               (case memcreek_alloc (riv_creeks riv ! k) sz of
                  (ret, c') \<Rightarrow> Inr (ret, riv\<lparr>riv_creeks := (riv_creeks riv)[k := c']\<rparr>))
           | None \<Rightarrow> Inr (NULL, riv)))"

definition memriver_alloc :: "memcreek heap_env \<Rightarrow> memriver \<Rightarrow> size_t \<Rightarrow> fault + (addr \<times> memriver)" where
  "memriver_alloc env riv sz =
     (if sz > riv_creekSize riv then memriver_alloc_new env riv sz sz
      else
        case memriver_alloc_scan riv sz (riv_length riv) of
          Inl e \<Rightarrow> Inl e
        | Inr (ret, riv) \<Rightarrow>
            if ret = NULL then memriver_alloc_new env riv (riv_creekSize riv) sz
            else Inr (ret, riv))"

section \<open>Well-formed structures and runs\<close>

text \<open>
  A creek that was initialised and not cleared: its buffer exists, lies inside the address
  space together with its one-past-the-end address, and the occupied length does not exceed
  the size.
\<close>

definition creek_ok :: "memcreek \<Rightarrow> bool" where
  "creek_ok c \<longleftrightarrow>
     creek_data c \<noteq> NULL \<and> unat (creek_data c) + unat (creek_size c) < 2 ^ 64
     \<and> creek_length c \<le> creek_size c"

text \<open>
  A client of one bath: it allocates, and it releases addresses it holds.  The state of a
  run is the bath and the addresses handed out by \<open>membath_alloc\<close> and not yet released,
  one entry for each allocation.  Releasing an address that is not held breaks the
  precondition of \<open>membath_release\<close> and is refused (\<open>Not_Live\<close>).
\<close>

datatype bath_op = Alloc | Release addr

fun bath_step :: "membath \<times> addr list \<Rightarrow> bath_op \<Rightarrow> fault + (membath \<times> addr list)" where
  "bath_step (bath, live) Alloc =
     (case membath_alloc bath of
        Inl e \<Rightarrow> Inl e
      | Inr (p, bath') \<Rightarrow> Inr (bath', if p = NULL then live else p # live))"
| "bath_step (bath, live) (Release p) =
     (if p \<notin> set live then Inl Not_Live
      else case membath_release bath p of
             Inl e \<Rightarrow> Inl e
           | Inr (r, bath') \<Rightarrow> Inr (bath', if r then remove1 p live else live))"

fun bath_run :: "membath \<times> addr list \<Rightarrow> bath_op list \<Rightarrow> fault + (membath \<times> addr list)" where
  "bath_run s [] = Inr s"
| "bath_run s (x # xs) = (case bath_step s x of Inl e \<Rightarrow> Inl e | Inr s' \<Rightarrow> bath_run s' xs)"

text \<open>Two items of \<open>n\<close> bytes at addresses \<open>p\<close> and \<open>q\<close> share a byte.\<close>

definition overlap :: "size_t \<Rightarrow> addr \<Rightarrow> addr \<Rightarrow> bool" where
  "overlap n p q \<longleftrightarrow> unat p < unat q + unat n \<and> unat q < unat p + unat n"

text \<open>Storage that has not been written yet; any contents would do.\<close>

definition blank_bath :: membath where
  "blank_bath = \<lparr>bath_size = 0, bath_itemSize = 0, bath_length = 0, bath_firstFree = 0,
                 bath_useMap = None, bath_data = NULL\<rparr>"

definition blank_pool :: mempool where
  "blank_pool = \<lparr>pool_length = 0, pool_bathSize = 0, pool_itemSize = 0, pool_baths = []\<rparr>"

definition blank_creek :: memcreek where
  "blank_creek = \<lparr>creek_size = 0, creek_length = 0, creek_data = NULL\<rparr>"

text \<open>
  What \<open>malloc(n)\<close> may return: \<open>NULL\<close>, or the address of a block of \<open>n\<close> bytes that
  lies inside the address space together with its one-past-the-end address and is no
  larger than \<open>PTRDIFF_MAX\<close>.
\<close>

definition malloc_valid :: "addr \<Rightarrow> nat \<Rightarrow> bool" where
  "malloc_valid p n \<longleftrightarrow> p = NULL \<or> (n < 2 ^ 63 \<and> unat p + n < 2 ^ 64)"

text \<open>
  The geometry of a bath that was initialised successfully and not cleared: the buffer
  exists and holds \<open>size * itemSize\<close> bytes (the product not wrapping), and the use-map
  has the \<open>bitArray_size size\<close> words that \<open>calloc\<close> gave it (the rounding up not wrapping).
\<close>

definition bath_ok :: "membath \<Rightarrow> bool" where
  "bath_ok b \<longleftrightarrow>
     bath_data b \<noteq> NULL
     \<and> unat (bath_size b) * unat (bath_itemSize b) < 2 ^ 63
     \<and> unat (bath_data b) + unat (bath_size b) * unat (bath_itemSize b) < 2 ^ 64
     \<and> unat (bath_size b) + 31 < 2 ^ 64
     \<and> (case bath_useMap b of
           None \<Rightarrow> False
         | Some ar \<Rightarrow> length ar = unat (bitArray_size (bath_size b)))"

text \<open>A use-map that has a word for every slot below \<open>sz\<close>.\<close>

definition map_covers :: "bitarray \<Rightarrow> size_t \<Rightarrow> bool" where
  "map_covers um sz \<longleftrightarrow> (case um of None \<Rightarrow> False | Some ar \<Rightarrow> \<forall>j. j < sz \<longrightarrow> bitArray_slot j < length ar)"

text \<open>What every run keeps true of the counters of a bath, and of the addresses held.\<close>

definition bath_counters :: "membath \<Rightarrow> bool" where
  "bath_counters b \<longleftrightarrow>
     bath_ok b \<and> bath_length b \<le> bath_size b
     \<and> (bath_size b \<noteq> 0 \<longrightarrow> bath_firstFree b < bath_size b)"

definition bath_inv :: "membath \<Rightarrow> addr list \<Rightarrow> bool" where
  "bath_inv b live \<longleftrightarrow>
     bath_counters b \<and> length live = unat (bath_length b)
     \<and> (\<forall>p \<in> set live. \<exists>i. i < bath_size b \<and> p = bath_data b + i * bath_itemSize b)"

text \<open>
  The failure condition of \<open>release\<close> in the words of the specification: the address is
  outside \<open>[buffer, buffer + capacity * itemSize)\<close>, or its offset from the start of the
  buffer is not a multiple of the item size.
\<close>

definition release_rejects_spec :: "membath \<Rightarrow> addr \<Rightarrow> bool" where
  "release_rejects_spec b p \<longleftrightarrow>
     \<not> (unat (bath_data b) \<le> unat p
        \<and> unat p < unat (bath_data b) + unat (bath_size b) * unat (bath_itemSize b))
     \<or> \<not> unat (bath_itemSize b) dvd (unat p - unat (bath_data b))"

text \<open>Slot \<open>j\<close> of a bath is marked as in use.\<close>

definition slot_used :: "membath \<Rightarrow> size_t \<Rightarrow> bool" where
  "slot_used b j \<longleftrightarrow> bitArray_test (bath_useMap b) j = Inr True"

text \<open>A client of a pool that only allocates: one \<open>heap_env\<close> for each call.\<close>

fun mempool_allocs :: "mempool \<Rightarrow> membath heap_env list \<Rightarrow> fault + (addr list \<times> mempool)" where
  "mempool_allocs pool [] = Inr ([], pool)"
| "mempool_allocs pool (env # envs) =
     (case mempool_alloc env pool of
        Inl e \<Rightarrow> Inl e
      | Inr (p, pool') \<Rightarrow>
          (case mempool_allocs pool' envs of
             Inl e \<Rightarrow> Inl e
           | Inr (ps, pool'') \<Rightarrow> Inr (p # ps, pool'')))"

text \<open>The number of baths the specification expects after \<open>n\<close> allocations: \<open>ceil(n / k)\<close>.\<close>

definition ceil_div :: "nat \<Rightarrow> nat \<Rightarrow> nat" where
  "ceil_div n k = (n + k - 1) div k"

text \<open>A client of a pool that allocates and releases, without reset or clear.\<close>

datatype pool_op = Pool_Alloc "membath heap_env" | Pool_Release addr

fun pool_step :: "mempool \<Rightarrow> pool_op \<Rightarrow> fault + mempool" where
  "pool_step pool (Pool_Alloc env) =
     (case mempool_alloc env pool of Inl e \<Rightarrow> Inl e | Inr (p, pool') \<Rightarrow> Inr pool')"
| "pool_step pool (Pool_Release p) =
     (case mempool_release pool p of Inl e \<Rightarrow> Inl e | Inr (r, pool') \<Rightarrow> Inr pool')"

fun pool_run :: "mempool \<Rightarrow> pool_op list \<Rightarrow> fault + mempool" where
  "pool_run pool [] = Inr pool"
| "pool_run pool (x # xs) = (case pool_step pool x of Inl e \<Rightarrow> Inl e | Inr pool' \<Rightarrow> pool_run pool' xs)"

text \<open>
  A request of \<open>sz\<close> bytes that returned \<open>p\<close> was served from creek \<open>k\<close> of the river:
  \<open>p\<close> is the address \<open>memcreek_alloc\<close> hands out from that creek.
\<close>

definition served_from :: "memriver \<Rightarrow> nat \<Rightarrow> size_t \<Rightarrow> addr \<Rightarrow> bool" where
  "served_from riv k sz p \<longleftrightarrow>
     k < length (riv_creeks riv) \<and> p \<noteq> NULL \<and> fst (memcreek_alloc (riv_creeks riv ! k) sz) = p"

text \<open>A client of a river: each request comes with the answers of the heap and a size.\<close>

fun memriver_allocs :: "memriver \<Rightarrow> (memcreek heap_env \<times> size_t) list \<Rightarrow> fault + (addr list \<times> memriver)" where
  "memriver_allocs riv [] = Inr ([], riv)"
| "memriver_allocs riv ((env, sz) # reqs) =
     (case memriver_alloc env riv sz of
        Inl e \<Rightarrow> Inl e
      | Inr (p, riv') \<Rightarrow>
          (case memriver_allocs riv' reqs of
             Inl e \<Rightarrow> Inl e
           | Inr (ps, riv'') \<Rightarrow> Inr (p # ps, riv'')))"

text \<open>
  What a run of allocations keeps true of a pool of baths of \<open>k\<close> items of \<open>isz\<close> bytes
  after \<open>n\<close> successful allocations: the \<open>length\<close> field counts the baths, the last
  bath is well-formed, and the \<open>n\<close> items are \<open>k\<close> in each bath but the last plus those
  of the last bath, which holds at least one item unless it is the only bath.
\<close>

definition pool_inv :: "size_t \<Rightarrow> size_t \<Rightarrow> mempool \<Rightarrow> nat \<Rightarrow> bool" where
  "pool_inv k isz pool n \<longleftrightarrow>
     pool_bathSize pool = k \<and> pool_itemSize pool = isz
     \<and> unat (pool_length pool) = length (pool_baths pool) \<and> pool_baths pool \<noteq> []
     \<and> bath_counters (last (pool_baths pool))
     \<and> bath_size (last (pool_baths pool)) = k \<and> bath_itemSize (last (pool_baths pool)) = isz
     \<and> n = (length (pool_baths pool) - 1) * unat k + unat (bath_length (last (pool_baths pool)))
     \<and> (1 < length (pool_baths pool) \<longrightarrow> 0 < unat (bath_length (last (pool_baths pool))))"

section \<open>Counters and arrays that grow\<close>

lemma grown_no_wrap:
  fixes w :: size_t
  assumes "unat (w + 1 - 1) < unat (w + 1)"
  shows "unat (w + 1) = Suc (unat w)" and "unat (w + 1 - 1) = unat w"
proof -
  show 2: "unat (w + 1 - 1) = unat w" by simp
  from assms have "1 + w \<noteq> 0" by (auto simp: add.commute)
  then have "unat (1 + w) = Suc (unat w)" by (rule unatSuc)
  then show "unat (w + 1) = Suc (unat w)" by (simp add: add.commute)
qed

lemma unat_pred_pos:
  fixes w :: size_t
  assumes "0 < unat w"
  shows "unat (w - 1) = unat w - 1"
proof -
  from assms have "w \<noteq> 0" by auto
  then show ?thesis by (rule unat_minus_one)
qed

lemma realloc_array_grow: "n = Suc (length xs) \<Longrightarrow> realloc_array xs n junk = xs @ [junk]"
  by (simp add: realloc_array_def)

lemma realloc_array_keeps:
  "k < length xs \<Longrightarrow> k < n \<Longrightarrow> k < length (realloc_array xs n junk) \<and> realloc_array xs n junk ! k = xs ! k"
  by (simp add: realloc_array_def nth_append)

lemma realloc_array_length: "length (realloc_array xs n junk) = n"
  by (simp add: realloc_array_def)

section \<open>Properties of the bath\<close>

subsection \<open>Word arithmetic of slots and addresses\<close>

lemma unat_succ_below: "(i::size_t) < sz \<Longrightarrow> unat (i + 1) = unat i + 1"
  by unat_arith

lemma bitArray_size_unat:
  assumes "unat sz + 31 < 2 ^ 64"
  shows "unat (bitArray_size sz) = (unat sz + 31) div 32"
proof -
  have e: "sz + 32 - 1 = sz + 31"
    by simp
  have "unat sz + unat (31 :: size_t) < 2 ^ LENGTH(64)"
    using assms by simp
  then have u: "unat (sz + 31) = unat sz + unat (31 :: size_t)"
    by (rule unat_add_lem [THEN iffD1])
  have "unat (bitArray_size sz) = unat (sz + 31) div unat (32 :: size_t)"
    unfolding bitArray_size_def BITARRAY_INTBITS_def e by (rule unat_div)
  also have "\<dots> = (unat sz + 31) div 32"
    unfolding u by simp
  finally show ?thesis .
qed

lemma bitArray_slot_unat: "bitArray_slot i = unat i div 32"
  by (simp add: bitArray_slot_def BITARRAY_INTBITS_def unat_div)

lemma slot_in_map:
  assumes "i < sz" and "unat sz + 31 < 2 ^ 64"
  shows "bitArray_slot i < unat (bitArray_size sz)"
proof -
  from assms(1) have "unat i < unat sz" by (simp add: word_less_nat_alt)
  then have "unat i div 32 < (unat sz + 31) div 32" by arith
  then show ?thesis
    using assms(2) by (simp add: bitArray_size_unat bitArray_slot_unat)
qed

lemma bitArray_test_covers:
  "map_covers um sz \<Longrightarrow> i < sz \<Longrightarrow> \<exists>t. bitArray_test um i = Inr t"
  by (auto simp: map_covers_def bitArray_test_def split: option.splits)

lemma bitArray_set_covers:
  "map_covers um sz \<Longrightarrow> i < sz \<Longrightarrow> \<exists>ar ar'. um = Some ar \<and> bitArray_set um i = Inr (Some ar') \<and> length ar' = length ar"
  by (auto simp: map_covers_def bitArray_set_def split: option.splits)

lemma bitArray_clear_covers:
  "map_covers um sz \<Longrightarrow> i < sz \<Longrightarrow> \<exists>ar ar'. um = Some ar \<and> bitArray_clear um i = Inr (Some ar') \<and> length ar' = length ar"
  by (auto simp: map_covers_def bitArray_clear_def split: option.splits)

lemma membath_alloc_scan_covers:
  "map_covers um sz \<Longrightarrow> \<exists>r. membath_alloc_scan um i sz = Inr r \<and> (\<forall>j. r = Some j \<longrightarrow> j < sz)"
proof (induction um i sz rule: membath_alloc_scan.induct)
  case (1 um i sz)
  show ?case
  proof (cases "i < sz")
    case False
    then show ?thesis by (subst membath_alloc_scan.simps) simp
  next
    case True
    with 1(2) obtain t where t: "bitArray_test um i = Inr t"
      using bitArray_test_covers by blast
    show ?thesis
    proof (cases t)
      case False
      with True t show ?thesis by (subst membath_alloc_scan.simps) simp
    next
      case tt: True
      from 1(1) [OF True t] tt 1(2)
      obtain r where "membath_alloc_scan um (i + 1) sz = Inr r \<and> (\<forall>j. r = Some j \<longrightarrow> j < sz)"
        by auto
      with True t tt show ?thesis by (subst membath_alloc_scan.simps) simp
    qed
  qed
qed

lemma bath_ok_covers: "bath_ok b \<Longrightarrow> map_covers (bath_useMap b) (bath_size b)"
  by (auto simp: bath_ok_def map_covers_def slot_in_map split: option.splits)

lemma slot_address:
  assumes "bath_ok b" and "i \<le> bath_size b"
  shows "unat (i * bath_itemSize b) = unat i * unat (bath_itemSize b)"
    and "unat (bath_data b + i * bath_itemSize b) = unat (bath_data b) + unat i * unat (bath_itemSize b)"
proof -
  from assms(2) have "unat i \<le> unat (bath_size b)" by (simp add: word_le_nat_alt)
  then have le: "unat i * unat (bath_itemSize b) \<le> unat (bath_size b) * unat (bath_itemSize b)"
    by (rule mult_le_mono1)
  from assms(1) have a: "unat (bath_size b) * unat (bath_itemSize b) < 2 ^ 63"
    and b: "unat (bath_data b) + unat (bath_size b) * unat (bath_itemSize b) < 2 ^ 64"
    by (simp_all add: bath_ok_def)
  have pw: "(2::nat) ^ 63 < 2 ^ 64" by simp
  from le a pw have "unat i * unat (bath_itemSize b) < 2 ^ 64" by linarith
  then show p: "unat (i * bath_itemSize b) = unat i * unat (bath_itemSize b)"
    by (simp add: unat_mult_lem [THEN iffD1])
  from le b have "unat (bath_data b) + unat (i * bath_itemSize b) < 2 ^ 64"
    unfolding p by linarith
  then show "unat (bath_data b + i * bath_itemSize b) = unat (bath_data b) + unat i * unat (bath_itemSize b)"
    by (simp add: unat_add_lem [THEN iffD1] p)
qed

lemma sint_nonneg_small:
  fixes w :: size_t
  assumes "unat w < 2 ^ 63"
  shows "\<not> sint w < 0"
proof -
  from assms have "int (unat w) < int (2 ^ 63)"
    by (simp only: of_nat_less_iff)
  then have "uint w < 2 ^ 63"
    by simp
  moreover have "- (2 ^ 63) \<le> uint w"
    by (rule order_trans [of _ 0]) simp_all
  ultimately have "signed_take_bit 63 (uint w) = uint w"
    by (rule signed_take_bit_int_eq_self [rotated])
  then have "sint w = uint w"
    by (simp add: sint_uint)
  then show ?thesis
    by simp
qed

subsection \<open>Allocation\<close>

lemma membath_alloc_room:
  assumes "bath_counters b" and "bath_length b < bath_size b"
  shows "\<exists>ar found.
      bitArray_set (bath_useMap b) (bath_firstFree b) = Inr (Some ar)
    \<and> length ar = unat (bitArray_size (bath_size b))
    \<and> membath_alloc_scan (Some ar) (bath_firstFree b) (bath_size b) = Inr found
    \<and> (\<forall>j. found = Some j \<longrightarrow> j < bath_size b)
    \<and> membath_alloc b = Inr (bath_data b + bath_firstFree b * bath_itemSize b,
          b\<lparr>bath_useMap := Some ar,
            bath_firstFree := (case found of None \<Rightarrow> bath_firstFree b | Some i \<Rightarrow> i),
            bath_length := bath_length b + 1\<rparr>)"
proof -
  from assms have ok: "bath_ok b" and ff: "bath_firstFree b < bath_size b"
    by (auto simp: bath_counters_def)
  from ok obtain ar0 where ar0: "bath_useMap b = Some ar0" "length ar0 = unat (bitArray_size (bath_size b))"
    by (auto simp: bath_ok_def split: option.splits)
  from bitArray_set_covers [OF bath_ok_covers [OF ok] ff] ar0
  obtain ar where ar: "bitArray_set (bath_useMap b) (bath_firstFree b) = Inr (Some ar)"
    "length ar = unat (bitArray_size (bath_size b))"
    by auto
  from ok ar(2) have "map_covers (Some ar) (bath_size b)"
    by (auto simp: bath_ok_def map_covers_def slot_in_map)
  from membath_alloc_scan_covers [OF this, of "bath_firstFree b"]
  obtain found where found: "membath_alloc_scan (Some ar) (bath_firstFree b) (bath_size b) = Inr found"
    "\<forall>j. found = Some j \<longrightarrow> j < bath_size b"
    by auto
  from assms(2) have "\<not> bath_size b \<le> bath_length b" by simp
  then have "membath_alloc b = Inr (bath_data b + bath_firstFree b * bath_itemSize b,
          b\<lparr>bath_useMap := Some ar,
            bath_firstFree := (case found of None \<Rightarrow> bath_firstFree b | Some i \<Rightarrow> i),
            bath_length := bath_length b + 1\<rparr>)"
    using ar(1) found(1) by (simp add: membath_alloc_def Let_def)
  with ar found show ?thesis by blast
qed

lemma slot_address_not_null:
  assumes "bath_ok b" and "i \<le> bath_size b"
  shows "bath_data b + i * bath_itemSize b \<noteq> NULL"
proof -
  from assms(1) have "bath_data b \<noteq> 0" by (simp add: bath_ok_def NULL_def)
  then have "unat (bath_data b) \<noteq> 0" by (simp add: unat_eq_0)
  with slot_address(2) [OF assms] have "unat (bath_data b + i * bath_itemSize b) \<noteq> 0" by simp
  then show ?thesis by (auto simp: NULL_def)
qed

lemma membath_alloc_counters:
  assumes "bath_counters b" and "membath_alloc b = Inr (p, b')"
  shows "bath_counters b'"
    and "bath_size b' = bath_size b" and "bath_itemSize b' = bath_itemSize b" and "bath_data b' = bath_data b"
    and "bath_length b < bath_size b \<Longrightarrow>
           p = bath_data b + bath_firstFree b * bath_itemSize b \<and> p \<noteq> NULL
           \<and> bath_firstFree b < bath_size b
           \<and> bath_length b' = bath_length b + 1 \<and> unat (bath_length b') = unat (bath_length b) + 1"
    and "\<not> bath_length b < bath_size b \<Longrightarrow> p = NULL \<and> b' = b"
proof -
  show n: "\<not> bath_length b < bath_size b \<Longrightarrow> p = NULL \<and> b' = b"
    using assms(2) by (simp add: membath_alloc_def not_less)
  show r: "bath_length b < bath_size b \<Longrightarrow>
           p = bath_data b + bath_firstFree b * bath_itemSize b \<and> p \<noteq> NULL
           \<and> bath_firstFree b < bath_size b
           \<and> bath_length b' = bath_length b + 1 \<and> unat (bath_length b') = unat (bath_length b) + 1"
  proof -
    assume lt: "bath_length b < bath_size b"
    from assms(1) lt have ff: "bath_firstFree b < bath_size b" and ok: "bath_ok b"
      by (auto simp: bath_counters_def)
    from membath_alloc_room [OF assms(1) lt] assms(2)
    have "p = bath_data b + bath_firstFree b * bath_itemSize b" "bath_length b' = bath_length b + 1"
      by auto
    moreover have "bath_data b + bath_firstFree b * bath_itemSize b \<noteq> NULL"
      using ok ff by (intro slot_address_not_null) simp_all
    moreover have "unat (bath_length b + 1) = unat (bath_length b) + 1"
      using lt by (rule unat_succ_below)
    ultimately show ?thesis using ff by simp
  qed
  show "bath_size b' = bath_size b" "bath_itemSize b' = bath_itemSize b" "bath_data b' = bath_data b"
    using assms(2) by (auto simp: membath_alloc_def Let_def split: if_splits sum.splits)
  show "bath_counters b'"
  proof (cases "bath_length b < bath_size b")
    case False
    with n assms(1) show ?thesis by simp
  next
    case True
    from membath_alloc_room [OF assms(1) True] assms(2)
    obtain ar found where *: "length ar = unat (bitArray_size (bath_size b))"
      "\<forall>j. found = Some j \<longrightarrow> j < bath_size b"
      "b' = b\<lparr>bath_useMap := Some ar,
            bath_firstFree := (case found of None \<Rightarrow> bath_firstFree b | Some i \<Rightarrow> i),
            bath_length := bath_length b + 1\<rparr>"
      by auto
    from True have "bath_length b + 1 \<le> bath_size b"
      by (simp add: inc_le)
    moreover from assms(1) True have "bath_firstFree b < bath_size b"
      by (auto simp: bath_counters_def)
    ultimately show ?thesis
      using assms(1) * by (auto simp: bath_counters_def bath_ok_def split: option.splits)
  qed
qed

lemma membath_alloc_returns:
  assumes "bath_counters b"
  shows "\<exists>p b'. membath_alloc b = Inr (p, b')"
proof (cases "bath_length b < bath_size b")
  case True
  from membath_alloc_room [OF assms True] show ?thesis by blast
next
  case False
  then show ?thesis by (simp add: membath_alloc_def not_less)
qed

subsection \<open>Release\<close>

lemma membath_release_outside:
  "p < bath_data b \<or> bath_data b + bath_size b * bath_itemSize b < p
     \<Longrightarrow> membath_release b p = Inr (False, b)"
  by (simp add: membath_release_def Let_def)

lemma membath_release_null_unchanged:
  "membath_release b p = Inr (False, b') \<Longrightarrow> b' = b"
  by (auto simp: membath_release_def Let_def split: if_splits sum.splits)

lemma bath_end_unat:
  assumes "bath_ok b"
  shows "unat (bath_size b * bath_itemSize b) = unat (bath_size b) * unat (bath_itemSize b)"
    and "unat (bath_data b + bath_size b * bath_itemSize b)
           = unat (bath_data b) + unat (bath_size b) * unat (bath_itemSize b)"
  using slot_address [OF assms, of "bath_size b"] by simp_all

lemma membath_release_inside:
  assumes ok: "bath_ok b" and isz: "bath_itemSize b \<noteq> 0"
    and lo: "unat (bath_data b) \<le> unat p"
    and hi: "unat p < unat (bath_data b) + unat (bath_size b) * unat (bath_itemSize b)"
  shows "\<exists>ar. (p - bath_data b) div bath_itemSize b < bath_size b
      \<and> unat ((p - bath_data b) div bath_itemSize b) = (unat p - unat (bath_data b)) div unat (bath_itemSize b)
      \<and> bitArray_clear (bath_useMap b) ((p - bath_data b) div bath_itemSize b) = Inr (Some ar)
      \<and> length ar = unat (bitArray_size (bath_size b))
      \<and> membath_release b p = Inr (True,
            b\<lparr>bath_firstFree := min (bath_firstFree b) ((p - bath_data b) div bath_itemSize b),
              bath_useMap := Some ar, bath_length := bath_length b - 1\<rparr>)"
proof -
  let ?off = "p - bath_data b"
  let ?item = "?off div bath_itemSize b"
  from lo have dle: "bath_data b \<le> p" by (simp add: word_le_nat_alt)
  then have off: "unat ?off = unat p - unat (bath_data b)" by (simp add: unat_sub)
  from hi bath_end_unat(2) [OF ok] have ple: "\<not> bath_data b + bath_size b * bath_itemSize b < p"
    by (simp add: word_less_nat_alt)
  from off lo hi have offlt: "unat ?off < unat (bath_size b) * unat (bath_itemSize b)" by arith
  with ok have "unat ?off < 2 ^ 63" by (simp add: bath_ok_def)
  then have nonneg: "\<not> sint ?off < 0" by (rule sint_nonneg_small)
  from offlt bath_end_unat(1) [OF ok] have offle: "\<not> bath_size b * bath_itemSize b < ?off"
    by (simp add: word_less_nat_alt)
  have item: "unat ?item = (unat p - unat (bath_data b)) div unat (bath_itemSize b)"
    by (simp add: unat_div off)
  from isz have "0 < unat (bath_itemSize b)" by (simp add: unat_gt_0)
  with offlt off have "(unat p - unat (bath_data b)) div unat (bath_itemSize b) < unat (bath_size b)"
    by (simp add: less_mult_imp_div_less)
  with item have lt: "?item < bath_size b" by (simp add: word_less_nat_alt)
  from bitArray_clear_covers [OF bath_ok_covers [OF ok] lt] ok
  obtain ar where ar: "bitArray_clear (bath_useMap b) ?item = Inr (Some ar)"
    "length ar = unat (bitArray_size (bath_size b))"
    by (auto simp: bath_ok_def)
  have "membath_release b p = Inr (True,
            b\<lparr>bath_firstFree := min (bath_firstFree b) ?item,
              bath_useMap := Some ar, bath_length := bath_length b - 1\<rparr>)"
    using dle ple nonneg offle isz ar(1)
    by (simp add: membath_release_def Let_def min_def not_less)
  with lt item ar show ?thesis by blast
qed

subsection \<open>Runs of a client\<close>

lemma membath_init_inv:
  assumes init: "membath_init junk sz isz cok mp = (True, b0)"
    and prod: "unat sz * unat isz < 2 ^ 64" and bits: "unat sz + 31 < 2 ^ 64"
    and heap: "malloc_valid mp (unat (sz * isz))"
  shows "bath_inv b0 []" and "bath_size b0 = sz" and "bath_itemSize b0 = isz"
    and "bath_length b0 = 0" and "bath_data b0 = mp"
proof -
  from init have cok: "cok" and mp: "mp \<noteq> NULL"
    and b0: "b0 = junk\<lparr>bath_size := sz, bath_itemSize := isz, bath_length := 0, bath_firstFree := 0,
                bath_useMap := Some (replicate (unat (bitArray_size sz)) 0), bath_data := mp\<rparr>"
    by (auto simp: membath_init_def Let_def split: if_splits)
  from prod have "unat (sz * isz) = unat sz * unat isz"
    by (simp add: unat_mult_lem [THEN iffD1])
  with heap mp have "unat sz * unat isz < 2 ^ 63" "unat mp + unat sz * unat isz < 2 ^ 64"
    by (simp_all add: malloc_valid_def)
  with mp bits have "bath_ok b0"
    by (simp add: b0 bath_ok_def)
  moreover have "sz \<noteq> 0 \<longrightarrow> 0 < sz"
    by (simp add: word_gt_0)
  ultimately show "bath_inv b0 []"
    by (simp add: bath_inv_def bath_counters_def b0)
  show "bath_size b0 = sz" "bath_itemSize b0 = isz" "bath_length b0 = 0" "bath_data b0 = mp"
    by (simp_all add: b0)
qed

lemma membath_alloc_inv:
  assumes inv: "bath_inv b live" and al: "membath_alloc b = Inr (p, b')"
  shows "bath_inv b' (if p = NULL then live else p # live)"
proof -
  from inv have cnt: "bath_counters b" by (simp add: bath_inv_def)
  note c = membath_alloc_counters [OF cnt al]
  show ?thesis
  proof (cases "bath_length b < bath_size b")
    case False
    with c(6) inv show ?thesis by simp
  next
    case True
    from c(5) [OF True] have p: "p = bath_data b + bath_firstFree b * bath_itemSize b" "p \<noteq> NULL"
      "bath_firstFree b < bath_size b" "unat (bath_length b') = unat (bath_length b) + 1"
      by blast+
    from inv p c(1-4) show ?thesis
      by (auto simp: bath_inv_def)
  qed
qed

lemma membath_release_live:
  assumes inv: "bath_inv b live" and p: "p \<in> set live"
  shows "bath_itemSize b = 0 \<Longrightarrow> membath_release b p = Inl Div_By_Zero"
    and "bath_itemSize b \<noteq> 0 \<Longrightarrow> \<exists>b'. membath_release b p = Inr (True, b') \<and> bath_inv b' (remove1 p live)"
proof -
  from inv have ok: "bath_ok b" and cnt: "bath_counters b" and len: "length live = unat (bath_length b)"
    by (simp_all add: bath_inv_def bath_counters_def)
  from inv p obtain i where i: "i < bath_size b" "p = bath_data b + i * bath_itemSize b"
    by (auto simp: bath_inv_def)
  from i(1) have ile: "i \<le> bath_size b" by simp
  note ad = slot_address [OF ok ile]
  from i(1) have ui: "unat i < unat (bath_size b)" by (simp add: word_less_nat_alt)
  show "membath_release b p = Inl Div_By_Zero" if z: "bath_itemSize b = 0"
    using z i(2) by (simp add: membath_release_def Let_def)
  show "\<exists>b'. membath_release b p = Inr (True, b') \<and> bath_inv b' (remove1 p live)" if nz: "bath_itemSize b \<noteq> 0"
  proof -
    from nz have pos: "0 < unat (bath_itemSize b)" by (simp add: unat_gt_0)
    have lo: "unat (bath_data b) \<le> unat p" using ad(2) i(2) by simp
    from ui pos have "unat i * unat (bath_itemSize b) < unat (bath_size b) * unat (bath_itemSize b)"
      by simp
    then have hi: "unat p < unat (bath_data b) + unat (bath_size b) * unat (bath_itemSize b)"
      using ad(2) i(2) by simp
    from membath_release_inside [OF ok nz lo hi]
    obtain ar where r: "(p - bath_data b) div bath_itemSize b < bath_size b"
      "length ar = unat (bitArray_size (bath_size b))"
      "membath_release b p = Inr (True,
            b\<lparr>bath_firstFree := min (bath_firstFree b) ((p - bath_data b) div bath_itemSize b),
              bath_useMap := Some ar, bath_length := bath_length b - 1\<rparr>)"
      by blast
    let ?b' = "b\<lparr>bath_firstFree := min (bath_firstFree b) ((p - bath_data b) div bath_itemSize b),
              bath_useMap := Some ar, bath_length := bath_length b - 1\<rparr>"
    from p have "0 < length live" by (cases live) auto
    with len have l1: "1 \<le> unat (bath_length b)" by simp
    then have "bath_length b \<noteq> 0" by (auto simp: unat_eq_0)
    then have dec: "unat (bath_length b - 1) = unat (bath_length b) - 1"
      by (simp add: unat_minus_one)
    from cnt have "unat (bath_length b) \<le> unat (bath_size b)"
      by (simp add: bath_counters_def word_le_nat_alt)
    with dec have "bath_length b - 1 \<le> bath_size b"
      by (simp add: word_le_nat_alt)
    moreover have "min (bath_firstFree b) ((p - bath_data b) div bath_itemSize b) < bath_size b"
      using r(1) by (simp add: min_less_iff_disj)
    moreover have "bath_ok ?b'"
      using ok r(2) by (simp add: bath_ok_def)
    ultimately have "bath_counters ?b'"
      by (simp add: bath_counters_def)
    moreover have "length (remove1 p live) = unat (bath_length ?b')"
      using p len dec by (simp add: length_remove1)
    moreover have "\<forall>q \<in> set (remove1 p live). \<exists>i. i < bath_size ?b' \<and> q = bath_data ?b' + i * bath_itemSize ?b'"
      using inv by (auto simp: bath_inv_def dest: notin_set_remove1)
    ultimately have "bath_inv ?b' (remove1 p live)"
      unfolding bath_inv_def by blast
    with r(3) show ?thesis by blast
  qed
qed

lemma bath_step_inv:
  assumes "bath_inv b live" and "bath_step (b, live) x = Inr (b', live')"
  shows "bath_inv b' live'"
proof (cases x)
  case Alloc
  with assms(2) obtain p where "membath_alloc b = Inr (p, b')" "live' = (if p = NULL then live else p # live)"
    by (auto split: sum.splits)
  with membath_alloc_inv [OF assms(1)] show ?thesis by simp
next
  case (Release p)
  with assms(2) have p: "p \<in> set live" by (auto split: if_splits)
  show ?thesis
  proof (cases "bath_itemSize b = 0")
    case True
    from membath_release_live(1) [OF assms(1) p True] assms(2) Release p show ?thesis by simp
  next
    case False
    from membath_release_live(2) [OF assms(1) p False] assms(2) Release p show ?thesis by auto
  qed
qed

lemma bath_step_itemSize:
  "bath_step (b, live) x = Inr (b', live') \<Longrightarrow> bath_itemSize b' = bath_itemSize b"
  by (cases x)
    (auto simp: membath_alloc_def membath_release_def Let_def split: if_splits sum.splits)

lemma bath_run_itemSize:
  "bath_run (b, live) ops = Inr (b', live') \<Longrightarrow> bath_itemSize b' = bath_itemSize b"
proof (induction ops arbitrary: b live)
  case Nil
  then show ?case by simp
next
  case (Cons x ops)
  from Cons.prems obtain b1 live1 where s: "bath_step (b, live) x = Inr (b1, live1)"
    and r: "bath_run (b1, live1) ops = Inr (b', live')"
    by (auto split: sum.splits)
  from Cons.IH [OF r] bath_step_itemSize [OF s] show ?case by simp
qed

lemma bath_run_inv:
  "bath_inv b live \<Longrightarrow> bath_run (b, live) ops = Inr (b', live') \<Longrightarrow> bath_inv b' live'"
proof (induction ops arbitrary: b live)
  case Nil
  then show ?case by simp
next
  case (Cons x ops)
  from Cons.prems(2) obtain b1 live1 where s: "bath_step (b, live) x = Inr (b1, live1)"
    and r: "bath_run (b1, live1) ops = Inr (b', live')"
    by (auto split: sum.splits)
  from bath_step_inv [OF Cons.prems(1) s] have "bath_inv b1 live1" .
  from Cons.IH [OF this r] show ?case .
qed


text \<open>
  C6.  Take a bath that \<open>membath_init\<close> set up successfully (its size computations not
  wrapping, \<open>malloc\<close> keeping its contract) and any run of allocations and of releases of
  addresses held at that time.  In the bath \<open>b\<close> the run ends in, \<open>membath_alloc\<close>
  returns, and it returns \<open>NULL\<close> exactly when \<open>length = size\<close>.  Moreover the run can
  always go on: when the items are not empty, releasing any address held succeeds.
\<close>

theorem membath_alloc_null_iff_full:
  assumes "membath_init junk sz isz cok mp = (True, b0)"
    and "unat sz * unat isz < 2 ^ 64" and "unat sz + 31 < 2 ^ 64"
    and "malloc_valid mp (unat (sz * isz))"
    and "bath_run (b0, []) ops = Inr (b, live)"
  shows "(\<exists>p b'. membath_alloc b = Inr (p, b') \<and> (p = NULL \<longleftrightarrow> bath_length b = bath_size b))
    \<and> (isz \<noteq> 0 \<longrightarrow> (\<forall>q \<in> set live. \<exists>b'. membath_release b q = Inr (True, b')))"
proof -
  note i = membath_init_inv [OF assms(1-4)]
  from bath_run_inv [OF i(1) assms(5)] have inv: "bath_inv b live" .
  then have cnt: "bath_counters b" by (simp add: bath_inv_def)
  from membath_alloc_returns [OF cnt] obtain p b' where al: "membath_alloc b = Inr (p, b')" by blast
  note c = membath_alloc_counters [OF cnt al]
  have "p = NULL \<longleftrightarrow> bath_length b = bath_size b"
  proof (cases "bath_length b < bath_size b")
    case True
    with c(5) show ?thesis by auto
  next
    case False
    with cnt have "bath_length b = bath_size b" by (auto simp: bath_counters_def)
    with c(6) False show ?thesis by simp
  qed
  with al have 1: "\<exists>p b'. membath_alloc b = Inr (p, b') \<and> (p = NULL \<longleftrightarrow> bath_length b = bath_size b)"
    by blast
  have "bath_itemSize b = isz"
    using bath_run_itemSize [OF assms(5)] i(3) by simp
  with membath_release_live(2) [OF inv] have 2: "isz \<noteq> 0 \<longrightarrow> (\<forall>q \<in> set live. \<exists>b'. membath_release b q = Inr (True, b'))"
    by blast
  from 1 2 show ?thesis by blast
qed

theorem membath_alloc_null_iff_full_witness:
  "membath_init blank_bath 2 4 True 4096
     = (True, \<lparr>bath_size = 2, bath_itemSize = 4, bath_length = 0, bath_firstFree = 0,
                bath_useMap = Some [0], bath_data = 4096\<rparr>)
   \<and> bath_run (\<lparr>bath_size = 2, bath_itemSize = 4, bath_length = 0, bath_firstFree = 0,
                bath_useMap = Some [0], bath_data = 4096\<rparr>, []) [Alloc, Alloc, Release 4096, Alloc]
     = Inr (\<lparr>bath_size = 2, bath_itemSize = 4, bath_length = 2, bath_firstFree = 0,
              bath_useMap = Some [3], bath_data = 4096\<rparr>, [4096, 4100])
   \<and> (\<exists>p b'. membath_alloc \<lparr>bath_size = 2, bath_itemSize = 4, bath_length = 2, bath_firstFree = 0,
              bath_useMap = Some [3], bath_data = 4096\<rparr> = Inr (p, b') \<and> p = NULL)
   \<and> (\<exists>b'. membath_release \<lparr>bath_size = 2, bath_itemSize = 4, bath_length = 2, bath_firstFree = 0,
              bath_useMap = Some [3], bath_data = 4096\<rparr> 4096 = Inr (True, b'))
   \<and> (\<exists>b'. membath_release \<lparr>bath_size = 2, bath_itemSize = 4, bath_length = 2, bath_firstFree = 0,
              bath_useMap = Some [3], bath_data = 4096\<rparr> 4100 = Inr (True, b'))"
proof -
  have h1: "membath_init blank_bath 2 4 True 4096
     = (True, \<lparr>bath_size = 2, bath_itemSize = 4, bath_length = 0, bath_firstFree = 0,
                bath_useMap = Some [0], bath_data = 4096\<rparr>)"
    by code_simp
  have h2: "unat (2 :: size_t) * unat (4 :: size_t) < 2 ^ 64"
    by simp
  have h3: "unat (2 :: size_t) + 31 < 2 ^ 64"
    by simp
  have h4: "malloc_valid 4096 (unat (2 * 4 :: size_t))"
    by (simp add: malloc_valid_def)
  have h5: "bath_run (\<lparr>bath_size = 2, bath_itemSize = 4, bath_length = 0, bath_firstFree = 0,
                bath_useMap = Some [0], bath_data = 4096\<rparr>, []) [Alloc, Alloc, Release 4096, Alloc]
     = Inr (\<lparr>bath_size = 2, bath_itemSize = 4, bath_length = 2, bath_firstFree = 0,
              bath_useMap = Some [3], bath_data = 4096\<rparr>, [4096, 4100])"
    by code_simp
  from membath_alloc_null_iff_full [OF h1 h2 h3 h4 h5] h1 h5 show ?thesis
    by simp
qed

subsection \<open>What release accepts\<close>

text \<open>
  C3, as stated, fails.  In a bath of four items of four bytes at address 4096 with slot 0
  in use, the address 4097 is inside the buffer but not at the start of a slot, so the
  specification wants the release to fail.  \<open>membath_release\<close> has no alignment test: it
  succeeds and releases slot 0.
\<close>

theorem membath_release_unaligned_counterexample:
  "release_rejects_spec \<lparr>bath_size = 4, bath_itemSize = 4, bath_length = 1, bath_firstFree = 1,
                           bath_useMap = Some [1], bath_data = 4096\<rparr> 4097
   \<and> membath_release \<lparr>bath_size = 4, bath_itemSize = 4, bath_length = 1, bath_firstFree = 1,
                           bath_useMap = Some [1], bath_data = 4096\<rparr> 4097
     = Inr (True, \<lparr>bath_size = 4, bath_itemSize = 4, bath_length = 0, bath_firstFree = 0,
                           bath_useMap = Some [0], bath_data = 4096\<rparr>)"
  by code_simp


text \<open>
  The range test of \<open>membath_release\<close> is \<open>ptr > end\<close>, so the one-past-the-end
  address passes it.  In the same bath, address \<open>4096 + 4 * 4\<close> is accepted as slot 4 of
  4: the use-map is unchanged and \<open>length\<close> drops to 0 while slot 0 is still in use.
\<close>

lemma membath_release_accepts_end:
  "membath_release \<lparr>bath_size = 4, bath_itemSize = 4, bath_length = 1, bath_firstFree = 1,
                     bath_useMap = Some [1], bath_data = 4096\<rparr> 4112
     = Inr (True, \<lparr>bath_size = 4, bath_itemSize = 4, bath_length = 0, bath_firstFree = 1,
                     bath_useMap = Some [1], bath_data = 4096\<rparr>)"
  by code_simp

text \<open>
  C3, amended.  For a well-formed bath with items of non-zero size and every address
  \<open>p\<close>: if \<open>p\<close> lies below the buffer or above \<open>buffer + size * itemSize\<close>,
  \<open>membath_release\<close> returns \<open>NULL\<close>; if \<open>p\<close> lies in
  \<open>[buffer, buffer + size * itemSize)\<close>, at the start of a slot or not, it succeeds and
  releases the slot \<open>(p - buffer) div itemSize\<close> that contains \<open>p\<close>; and whenever it
  returns \<open>NULL\<close> the bath is unchanged.  (Nothing is said about the one-past-the-end
  address \<open>buffer + size * itemSize\<close>.)
\<close>

theorem membath_release_spec:
  assumes "bath_ok b" and "bath_itemSize b \<noteq> 0"
  shows "(unat p < unat (bath_data b)
            \<or> unat (bath_data b) + unat (bath_size b) * unat (bath_itemSize b) < unat p
          \<longrightarrow> membath_release b p = Inr (False, b))
    \<and> (unat (bath_data b) \<le> unat p
            \<and> unat p < unat (bath_data b) + unat (bath_size b) * unat (bath_itemSize b)
          \<longrightarrow> (\<exists>um. bitArray_clear (bath_useMap b) ((p - bath_data b) div bath_itemSize b) = Inr um
                \<and> membath_release b p = Inr (True,
                     b\<lparr>bath_firstFree := min (bath_firstFree b) ((p - bath_data b) div bath_itemSize b),
                       bath_useMap := um, bath_length := bath_length b - 1\<rparr>))
              \<and> unat ((p - bath_data b) div bath_itemSize b)
                   = (unat p - unat (bath_data b)) div unat (bath_itemSize b))
    \<and> (\<forall>b'. membath_release b p = Inr (False, b') \<longrightarrow> b' = b)"
proof -
  have "membath_release b p = Inr (False, b)"
    if "unat p < unat (bath_data b)
          \<or> unat (bath_data b) + unat (bath_size b) * unat (bath_itemSize b) < unat p"
  proof (rule membath_release_outside)
    from that bath_end_unat(2) [OF assms(1)]
    show "p < bath_data b \<or> bath_data b + bath_size b * bath_itemSize b < p"
      by (simp add: word_less_nat_alt)
  qed
  moreover have "(\<exists>um. bitArray_clear (bath_useMap b) ((p - bath_data b) div bath_itemSize b) = Inr um
                \<and> membath_release b p = Inr (True,
                     b\<lparr>bath_firstFree := min (bath_firstFree b) ((p - bath_data b) div bath_itemSize b),
                       bath_useMap := um, bath_length := bath_length b - 1\<rparr>))
              \<and> unat ((p - bath_data b) div bath_itemSize b)
                   = (unat p - unat (bath_data b)) div unat (bath_itemSize b)"
    if "unat (bath_data b) \<le> unat p
          \<and> unat p < unat (bath_data b) + unat (bath_size b) * unat (bath_itemSize b)"
    using membath_release_inside [OF assms, of p] that by blast
  moreover have "\<forall>b'. membath_release b p = Inr (False, b') \<longrightarrow> b' = b"
    using membath_release_null_unchanged by blast
  ultimately show ?thesis by blast
qed

theorem membath_release_spec_witness:
  "bath_ok \<lparr>bath_size = 4, bath_itemSize = 4, bath_length = 1, bath_firstFree = 1,
            bath_useMap = Some [1], bath_data = 4096\<rparr>
   \<and> membath_release \<lparr>bath_size = 4, bath_itemSize = 4, bath_length = 1, bath_firstFree = 1,
            bath_useMap = Some [1], bath_data = 4096\<rparr> 4095
     = Inr (False, \<lparr>bath_size = 4, bath_itemSize = 4, bath_length = 1, bath_firstFree = 1,
            bath_useMap = Some [1], bath_data = 4096\<rparr>)
   \<and> unat ((4102 - 4096) div 4 :: size_t) = 1
   \<and> (\<exists>um. membath_release \<lparr>bath_size = 4, bath_itemSize = 4, bath_length = 1, bath_firstFree = 1,
            bath_useMap = Some [1], bath_data = 4096\<rparr> 4102
     = Inr (True, \<lparr>bath_size = 4, bath_itemSize = 4, bath_length = 0, bath_firstFree = 1,
            bath_useMap = um, bath_data = 4096\<rparr>))"
proof -
  let ?b = "\<lparr>bath_size = 4, bath_itemSize = 4, bath_length = 1, bath_firstFree = 1,
            bath_useMap = Some [1], bath_data = 4096\<rparr>"
  have h1: "bath_ok ?b"
    by (simp add: bath_ok_def NULL_def bitArray_size_def BITARRAY_INTBITS_def)
  have h2: "bath_itemSize ?b \<noteq> 0"
    by simp
  from membath_release_spec [OF h1 h2, of 4095] membath_release_spec [OF h1 h2, of 4102] h1
  show ?thesis
    by auto
qed

subsection \<open>A stale first-free hint\<close>

text \<open>
  C1.  A bath of two items of four bytes at address 4096.  The client allocates both
  slots, releases the first, allocates again (slot 0, which fills the bath and leaves
  \<open>firstFree\<close> at 0), releases the second (slot 1, which is not below \<open>firstFree\<close>, so
  the hint stays at the occupied slot 0) and allocates once more.  Every release is of an
  address held at that time.  The last allocation hands out address 4096 a second time
  while the first holder still has it: the two items overlap, and \<open>length\<close> is 2 while
  only one bit of the use-map is set.
\<close>

theorem membath_alloc_hands_out_live_slot:
  "bath_run (snd (membath_init blank_bath 2 4 True 4096), [])
       [Alloc, Alloc, Release 4096, Alloc, Release 4100, Alloc]
     = Inr (\<lparr>bath_size = 2, bath_itemSize = 4, bath_length = 2, bath_firstFree = 1,
             bath_useMap = Some [1], bath_data = 4096\<rparr>, [4096, 4096])
   \<and> overlap 4 4096 4096
   \<and> unat (2 :: size_t) \<noteq> bitArray_count (Some [1])"
  by code_simp

text \<open>
  C2.  The hint after an allocation that finds no free slot, and after the release that
  follows.  In a bath of one item, the first allocation fills the bath and leaves
  \<open>firstFree\<close> at 0, below the capacity 1.  In the bath of two items of C1, after the
  fifth operation slot 0 is in use, slot 1 is free, the bath is not full, and
  \<open>firstFree\<close> is 0: neither the lowest free slot nor a value at or above the capacity.
\<close>

theorem membath_firstFree_stale:
  "bath_run (snd (membath_init blank_bath 1 4 True 4096), []) [Alloc]
     = Inr (\<lparr>bath_size = 1, bath_itemSize = 4, bath_length = 1, bath_firstFree = 0,
             bath_useMap = Some [1], bath_data = 4096\<rparr>, [4096])
   \<and> bath_run (snd (membath_init blank_bath 2 4 True 4096), [])
       [Alloc, Alloc, Release 4096, Alloc, Release 4100]
     = Inr (\<lparr>bath_size = 2, bath_itemSize = 4, bath_length = 1, bath_firstFree = 0,
             bath_useMap = Some [1], bath_data = 4096\<rparr>, [4096])
   \<and> slot_used \<lparr>bath_size = 2, bath_itemSize = 4, bath_length = 1, bath_firstFree = 0,
             bath_useMap = Some [1], bath_data = 4096\<rparr> 0
   \<and> \<not> slot_used \<lparr>bath_size = 2, bath_itemSize = 4, bath_length = 1, bath_firstFree = 0,
             bath_useMap = Some [1], bath_data = 4096\<rparr> 1"
  by code_simp

section \<open>Properties of the pool\<close>

subsection \<open>Releasing the null pointer\<close>

text \<open>
  C10.  \<open>mempool_release\<close> with a null pointer returns \<open>NULL\<close> and leaves the pool as it
  was.  This holds for every pool, also one whose member array is shorter than its
  \<open>length\<close> field, where a scan of the baths would have run out of bounds: no bath is
  looked at.
\<close>

theorem mempool_release_null:
  "mempool_release pool NULL = Inr (False, pool)"
  by (simp add: mempool_release_def)

subsection \<open>Release only clears bits\<close>

lemma and_not_mask_test:
  fixes w m m' :: uint
  shows "(w AND NOT m) AND m' \<noteq> 0 \<Longrightarrow> w AND m' \<noteq> 0"
proof
  assume a: "(w AND NOT m) AND m' \<noteq> 0" and z: "w AND m' = 0"
  have "(w AND NOT m) AND m' = (w AND m') AND NOT m"
    by (simp add: ac_simps)
  with z have "(w AND NOT m) AND m' = 0" by simp
  with a show False by simp
qed

lemma bitArray_clear_only_clears:
  assumes "bitArray_clear um i = Inr um'" and "bitArray_test um' j = Inr True"
  shows "bitArray_test um j = Inr True"
proof -
  from assms(1) obtain ar where ar: "um = Some ar" "bitArray_slot i < length ar"
    "um' = Some (ar[bitArray_slot i := ar ! bitArray_slot i AND NOT (bitArray_mask i)])"
    by (auto simp: bitArray_clear_def split: option.splits if_splits)
  from assms(2) ar have j: "bitArray_slot j < length ar"
    by (auto simp: bitArray_test_def split: if_splits)
  show ?thesis
  proof (cases "bitArray_slot j = bitArray_slot i")
    case True
    with assms(2) ar j have "(ar ! bitArray_slot i AND NOT (bitArray_mask i)) AND bitArray_mask j \<noteq> 0"
      by (simp add: bitArray_test_def)
    then have "ar ! bitArray_slot i AND bitArray_mask j \<noteq> 0"
      by (rule and_not_mask_test)
    with True ar j show ?thesis by (simp add: bitArray_test_def)
  next
    case False
    with assms(2) ar j show ?thesis by (simp add: bitArray_test_def)
  qed
qed

lemma membath_release_only_frees:
  assumes "membath_release b p = Inr (r, b')" and "slot_used b' j"
  shows "slot_used b j"
proof (cases r)
  case False
  with assms(1) have "b' = b" by (simp add: membath_release_null_unchanged)
  with assms(2) show ?thesis by simp
next
  case True
  with assms(1) obtain item um where "bitArray_clear (bath_useMap b) item = Inr um" "bath_useMap b' = um"
    by (auto simp: membath_release_def Let_def split: if_splits sum.splits)
  with assms(2) bitArray_clear_only_clears show ?thesis
    by (auto simp: slot_used_def)
qed

lemma mempool_release_scan_only_frees:
  assumes "mempool_release_scan pool ptr i = Inr (r, pool')"
  shows "pool_length pool' = pool_length pool \<and> length (pool_baths pool') = length (pool_baths pool)
    \<and> (\<forall>k < length (pool_baths pool). \<forall>j. slot_used (pool_baths pool' ! k) j \<longrightarrow> slot_used (pool_baths pool ! k) j)"
  using assms
proof (induction pool ptr i arbitrary: r pool' rule: mempool_release_scan.induct)
  case (1 pool ptr i)
  show ?case
  proof (cases "i < pool_length pool")
    case False
    with "1.prems" show ?thesis
      by (subst (asm) mempool_release_scan.simps) simp
  next
    case True
    with "1.prems" obtain bath where b: "bath_at pool i = Inr bath"
      by (subst (asm) mempool_release_scan.simps) (auto split: sum.splits)
    with True "1.prems" obtain r1 bath' where rel: "membath_release bath ptr = Inr (r1, bath')"
      by (subst (asm) mempool_release_scan.simps) (auto split: sum.splits)
    let ?pool1 = "pool\<lparr>pool_baths := (pool_baths pool)[unat i := bath']\<rparr>"
    from b have bi: "unat i < length (pool_baths pool)" "bath = pool_baths pool ! unat i"
      by (auto simp: bath_at_def split: if_splits)
    have step: "slot_used (pool_baths pool ! k) j"
      if "k < length (pool_baths pool)" "slot_used (pool_baths ?pool1 ! k) j" for k j
    proof (cases "k = unat i")
      case True
      with that bi have "slot_used bath' j" by simp
      from membath_release_only_frees [OF rel this] True bi show ?thesis by simp
    next
      case False
      with that show ?thesis by simp
    qed
    show ?thesis
    proof (cases r1)
      case True
      with \<open>i < pool_length pool\<close> b rel "1.prems" have "pool' = ?pool1"
        by (subst (asm) mempool_release_scan.simps) simp
      with step show ?thesis by simp
    next
      case False
      with \<open>i < pool_length pool\<close> b rel "1.prems"
      have r: "mempool_release_scan ?pool1 ptr (i + 1) = Inr (r, pool')"
        by (subst (asm) mempool_release_scan.simps) simp
      from "1.IH" [OF \<open>i < pool_length pool\<close> b rel refl _ r] False
      have ih: "pool_length pool' = pool_length ?pool1 \<and> length (pool_baths pool') = length (pool_baths ?pool1)
        \<and> (\<forall>k < length (pool_baths ?pool1). \<forall>j. slot_used (pool_baths pool' ! k) j \<longrightarrow> slot_used (pool_baths ?pool1 ! k) j)"
        by simp
      with step show ?thesis by simp
    qed
  qed
qed

lemma mempool_release_only_frees:
  assumes "mempool_release pool ptr = Inr (r, pool')"
  shows "pool_length pool' = pool_length pool \<and> length (pool_baths pool') = length (pool_baths pool)
    \<and> (\<forall>k < length (pool_baths pool). \<forall>j. slot_used (pool_baths pool' ! k) j \<longrightarrow> slot_used (pool_baths pool ! k) j)"
proof (cases "ptr = NULL")
  case True
  with assms show ?thesis by (simp add: mempool_release_def)
next
  case False
  with assms have "mempool_release_scan pool ptr 0 = Inr (r, pool')"
    by (simp add: mempool_release_def)
  then show ?thesis by (rule mempool_release_scan_only_frees)
qed

subsection \<open>Allocation touches the last bath and the new one\<close>

lemma mempool_alloc_cases:
  assumes "mempool_alloc env pool = Inr (p, pool')"
  obtains (served) lb lb' where "bath_at pool (pool_length pool - 1) = Inr lb"
      "membath_alloc lb = Inr (p, lb')" "p \<noteq> NULL"
      "pool' = pool\<lparr>pool_baths := (pool_baths pool)[unat (pool_length pool - 1) := lb']\<rparr>"
  | (stuck) lb lb' where "bath_at pool (pool_length pool - 1) = Inr lb"
      "membath_alloc lb = Inr (NULL, lb')" "\<not> array_ok env" "p = NULL"
      "pool' = pool\<lparr>pool_baths := (pool_baths pool)[unat (pool_length pool - 1) := lb'],
                    pool_length := pool_length pool + 1\<rparr>"
  | (grown) lb lb' nb ok nb0 nb' where "bath_at pool (pool_length pool - 1) = Inr lb"
      "membath_alloc lb = Inr (NULL, lb')" "array_ok env"
      "unat (pool_length pool + 1 - 1) < unat (pool_length pool + 1)"
      "nb = realloc_array ((pool_baths pool)[unat (pool_length pool - 1) := lb'])
              (unat (pool_length pool + 1)) (fresh env) ! unat (pool_length pool + 1 - 1)"
      "membath_init nb (pool_bathSize pool) (pool_itemSize pool) (calloc_ok env) (malloc_ptr env) = (ok, nb0)"
      "membath_alloc nb0 = Inr (p, nb')"
      "pool' = pool\<lparr>pool_length := pool_length pool + 1,
                    pool_baths := (realloc_array ((pool_baths pool)[unat (pool_length pool - 1) := lb'])
                       (unat (pool_length pool + 1)) (fresh env))[unat (pool_length pool + 1 - 1) := nb']\<rparr>"
proof -
  from assms obtain lb where lb: "bath_at pool (pool_length pool - 1) = Inr lb"
    by (auto simp: mempool_alloc_def split: sum.splits)
  with assms obtain ret lb' where al: "membath_alloc lb = Inr (ret, lb')"
    by (auto simp: mempool_alloc_def split: sum.splits)
  show ?thesis
  proof (cases "ret \<noteq> NULL")
    case True
    with assms lb al show ?thesis
      by (intro served [of lb lb']) (auto simp: mempool_alloc_def Let_def)
  next
    case False
    then have ret: "ret = NULL" by simp
    show ?thesis
    proof (cases "array_ok env")
      case False
      with assms lb al ret show ?thesis
        by (intro stuck [of lb lb']) (auto simp: mempool_alloc_def Let_def)
    next
      case True
      let ?cs = "realloc_array ((pool_baths pool)[unat (pool_length pool - 1) := lb'])
              (unat (pool_length pool + 1)) (fresh env)"
      let ?j = "unat (pool_length pool + 1 - 1)"
      from assms lb al ret True have inb: "?j < length ?cs"
        by (auto simp: mempool_alloc_def Let_def bath_at_def split: if_splits)
      obtain ok nb0 where init: "membath_init (?cs ! ?j) (pool_bathSize pool) (pool_itemSize pool)
          (calloc_ok env) (malloc_ptr env) = (ok, nb0)"
        by (cases "membath_init (?cs ! ?j) (pool_bathSize pool) (pool_itemSize pool)
          (calloc_ok env) (malloc_ptr env)")
      from assms lb al ret True inb init obtain nb' where nb': "membath_alloc nb0 = Inr (p, nb')"
        "pool' = pool\<lparr>pool_length := pool_length pool + 1, pool_baths := ?cs[?j := nb']\<rparr>"
        by (auto simp: mempool_alloc_def Let_def bath_at_def split: sum.splits)
      from inb have "?j < unat (pool_length pool + 1)"
        by (simp add: realloc_array_length)
      with lb al ret True init nb' show ?thesis
        by (intro grown [of lb lb' "?cs ! ?j" ok nb0 nb']) simp_all
    qed
  qed
qed

lemma mempool_alloc_keeps:
  assumes al: "mempool_alloc env pool = Inr (p, pool')"
    and i: "i + 1 < unat (pool_length pool)" "i < length (pool_baths pool)"
  shows "i < length (pool_baths pool') \<and> pool_baths pool' ! i = pool_baths pool ! i"
    and "unat (pool_length pool) + 1 < 2 ^ 64 \<Longrightarrow>
           unat (pool_length pool) \<le> unat (pool_length pool')
           \<and> unat (pool_length pool') \<le> unat (pool_length pool) + 1"
proof -
  from i(1) have "0 < unat (pool_length pool)" by simp
  then have "unat (pool_length pool - 1) = unat (pool_length pool) - 1"
    by (rule unat_pred_pos)
  with i(1) have ne: "unat (pool_length pool - 1) \<noteq> i" by simp
  have len: "unat (pool_length pool + 1) = Suc (unat (pool_length pool))"
    if "unat (pool_length pool) + 1 < 2 ^ 64"
  proof -
    from that have "unat (pool_length pool) + unat (1 :: size_t) < 2 ^ LENGTH(64)"
      by simp
    then have "unat (pool_length pool + 1) = unat (pool_length pool) + unat (1 :: size_t)"
      by (rule unat_add_lem [THEN iffD1])
    then show ?thesis by simp
  qed
  from al show "i < length (pool_baths pool') \<and> pool_baths pool' ! i = pool_baths pool ! i"
  proof (cases rule: mempool_alloc_cases)
    case (served lb lb')
    with i ne show ?thesis by simp
  next
    case (stuck lb lb')
    with i ne show ?thesis by simp
  next
    case (grown lb lb' nb ok nb0 nb')
    note g = grown_no_wrap [OF grown(4)]
    let ?xs = "(pool_baths pool)[unat (pool_length pool - 1) := lb']"
    from i have "i < length ?xs" "i < unat (pool_length pool + 1)"
      by (simp_all add: g)
    from realloc_array_keeps [OF this, of "fresh env"] ne i
    have "i < length (realloc_array ?xs (unat (pool_length pool + 1)) (fresh env))"
      "realloc_array ?xs (unat (pool_length pool + 1)) (fresh env) ! i = pool_baths pool ! i"
      by simp_all
    moreover from i(1) have "unat (pool_length pool + 1 - 1) \<noteq> i" by simp
    ultimately show ?thesis
      using grown(8) by simp
  qed
  show "unat (pool_length pool) \<le> unat (pool_length pool')
           \<and> unat (pool_length pool') \<le> unat (pool_length pool) + 1"
    if "unat (pool_length pool) + 1 < 2 ^ 64"
    using al
  proof (cases rule: mempool_alloc_cases)
    case (served lb lb')
    then show ?thesis by simp
  next
    case (stuck lb lb')
    with len [OF that] show ?thesis by simp
  next
    case (grown lb lb' nb ok nb0 nb')
    with len [OF that] show ?thesis by simp
  qed
qed

lemma pool_step_keeps:
  assumes st: "pool_step pool x = Inr pool'"
    and i: "i + 1 < unat (pool_length pool)" "i < length (pool_baths pool)"
    and room: "unat (pool_length pool) + 1 < 2 ^ 64"
  shows "i < length (pool_baths pool') \<and> i + 1 < unat (pool_length pool')
    \<and> unat (pool_length pool') \<le> unat (pool_length pool) + 1
    \<and> (\<forall>j. slot_used (pool_baths pool' ! i) j \<longrightarrow> slot_used (pool_baths pool ! i) j)"
proof (cases x)
  case (Pool_Alloc env)
  with st obtain p where "mempool_alloc env pool = Inr (p, pool')"
    by (auto split: sum.splits)
  from mempool_alloc_keeps [OF this i] room i show ?thesis by simp
next
  case (Pool_Release ptr)
  with st obtain r where "mempool_release pool ptr = Inr (r, pool')"
    by (auto split: sum.splits)
  from mempool_release_only_frees [OF this] i show ?thesis by simp
qed


text \<open>
  C9.  Take a bath of a pool that is not the last one (index \<open>i\<close> with
  \<open>i + 1 < length\<close>) and any run of \<open>mempool_alloc\<close> and \<open>mempool_release\<close> calls
  (as many as leave the bath count below \<open>2 ^ 64\<close>).  The bath stays in its place and
  stays a non-last bath; every slot of it that is in use after the run was in use before,
  so no slot of it that was free, or that a release freed, is handed out again; and a
  further \<open>mempool_alloc\<close> leaves the bath exactly as it is.
\<close>

theorem mempool_alloc_never_reuses_earlier_bath:
  assumes "pool_run pool ops = Inr pool'"
    and "i + 1 < unat (pool_length pool)" and "i < length (pool_baths pool)"
    and "unat (pool_length pool) + length ops < 2 ^ 64"
  shows "i < length (pool_baths pool') \<and> i + 1 < unat (pool_length pool')
    \<and> (\<forall>j. slot_used (pool_baths pool' ! i) j \<longrightarrow> slot_used (pool_baths pool ! i) j)
    \<and> (\<forall>env p pool''. mempool_alloc env pool' = Inr (p, pool'')
          \<longrightarrow> pool_baths pool'' ! i = pool_baths pool' ! i)"
  using assms
proof (induction ops arbitrary: pool)
  case Nil
  then have e: "pool' = pool" by simp
  have "pool_baths pool'' ! i = pool_baths pool ! i"
    if "mempool_alloc env pool = Inr (p, pool'')" for env p pool''
    using mempool_alloc_keeps(1) [OF that Nil.prems(2,3)] by simp
  with Nil.prems(2,3) e show ?case by blast
next
  case (Cons x ops)
  from Cons.prems(1) obtain pool1 where st: "pool_step pool x = Inr pool1"
    and rest: "pool_run pool1 ops = Inr pool'"
    by (auto split: sum.splits)
  from Cons.prems(4) have room: "unat (pool_length pool) + 1 < 2 ^ 64" by simp
  note s = pool_step_keeps [OF st Cons.prems(2,3) room]
  from s Cons.prems(4) have room1: "unat (pool_length pool1) + length ops < 2 ^ 64" by simp
  from Cons.IH [OF rest _ _ room1] s show ?case by simp
qed

theorem mempool_alloc_never_reuses_earlier_bath_witness:
  "pool_run \<lparr>pool_length = 2, pool_bathSize = 1, pool_itemSize = 4,
         pool_baths = [\<lparr>bath_size = 1, bath_itemSize = 4, bath_length = 0, bath_firstFree = 0,
                         bath_useMap = Some [0], bath_data = 4096\<rparr>,
                       \<lparr>bath_size = 1, bath_itemSize = 4, bath_length = 1, bath_firstFree = 0,
                         bath_useMap = Some [1], bath_data = 8192\<rparr>]\<rparr>
       [Pool_Alloc \<lparr>array_ok = True, fresh = blank_bath, calloc_ok = True, malloc_ptr = 12288\<rparr>,
        Pool_Release 8192,
        Pool_Alloc \<lparr>array_ok = True, fresh = blank_bath, calloc_ok = True, malloc_ptr = 16384\<rparr>]
     = Inr \<lparr>pool_length = 4, pool_bathSize = 1, pool_itemSize = 4,
         pool_baths = [\<lparr>bath_size = 1, bath_itemSize = 4, bath_length = 0, bath_firstFree = 0,
                         bath_useMap = Some [0], bath_data = 4096\<rparr>,
                       \<lparr>bath_size = 1, bath_itemSize = 4, bath_length = 0, bath_firstFree = 0,
                         bath_useMap = Some [0], bath_data = 8192\<rparr>,
                       \<lparr>bath_size = 1, bath_itemSize = 4, bath_length = 1, bath_firstFree = 0,
                         bath_useMap = Some [1], bath_data = 12288\<rparr>,
                       \<lparr>bath_size = 1, bath_itemSize = 4, bath_length = 1, bath_firstFree = 0,
                         bath_useMap = Some [1], bath_data = 16384\<rparr>]\<rparr>
   \<and> \<not> slot_used (pool_baths \<lparr>pool_length = 4, pool_bathSize = 1, pool_itemSize = 4,
         pool_baths = [\<lparr>bath_size = 1, bath_itemSize = 4, bath_length = 0, bath_firstFree = 0,
                         bath_useMap = Some [0], bath_data = 4096\<rparr>,
                       \<lparr>bath_size = 1, bath_itemSize = 4, bath_length = 0, bath_firstFree = 0,
                         bath_useMap = Some [0], bath_data = 8192\<rparr>,
                       \<lparr>bath_size = 1, bath_itemSize = 4, bath_length = 1, bath_firstFree = 0,
                         bath_useMap = Some [1], bath_data = 12288\<rparr>,
                       \<lparr>bath_size = 1, bath_itemSize = 4, bath_length = 1, bath_firstFree = 0,
                         bath_useMap = Some [1], bath_data = 16384\<rparr>]\<rparr> ! 0) 0"
proof -
  let ?before = "\<lparr>pool_length = 2, pool_bathSize = 1, pool_itemSize = 4,
         pool_baths = [\<lparr>bath_size = 1, bath_itemSize = 4, bath_length = 0, bath_firstFree = 0,
                         bath_useMap = Some [0], bath_data = 4096\<rparr>,
                       \<lparr>bath_size = 1, bath_itemSize = 4, bath_length = 1, bath_firstFree = 0,
                         bath_useMap = Some [1], bath_data = 8192\<rparr>]\<rparr>"
  let ?ops = "[Pool_Alloc \<lparr>array_ok = True, fresh = blank_bath, calloc_ok = True, malloc_ptr = 12288\<rparr>,
        Pool_Release 8192,
        Pool_Alloc \<lparr>array_ok = True, fresh = blank_bath, calloc_ok = True, malloc_ptr = 16384\<rparr>]"
  let ?after = "\<lparr>pool_length = 4, pool_bathSize = 1, pool_itemSize = 4,
         pool_baths = [\<lparr>bath_size = 1, bath_itemSize = 4, bath_length = 0, bath_firstFree = 0,
                         bath_useMap = Some [0], bath_data = 4096\<rparr>,
                       \<lparr>bath_size = 1, bath_itemSize = 4, bath_length = 0, bath_firstFree = 0,
                         bath_useMap = Some [0], bath_data = 8192\<rparr>,
                       \<lparr>bath_size = 1, bath_itemSize = 4, bath_length = 1, bath_firstFree = 0,
                         bath_useMap = Some [1], bath_data = 12288\<rparr>,
                       \<lparr>bath_size = 1, bath_itemSize = 4, bath_length = 1, bath_firstFree = 0,
                         bath_useMap = Some [1], bath_data = 16384\<rparr>]\<rparr>"
  have h1: "pool_run ?before ?ops = Inr ?after"
    by code_simp
  have h2: "0 + 1 < unat (pool_length ?before)" by simp
  have h3: "0 < length (pool_baths ?before)" by simp
  have h4: "unat (pool_length ?before) + length ?ops < 2 ^ 64" by simp
  have free: "\<not> slot_used (pool_baths ?before ! 0) 0"
    by code_simp
  from mempool_alloc_never_reuses_earlier_bath [OF h1 h2 h3 h4]
  have "slot_used (pool_baths ?after ! 0) 0 \<longrightarrow> slot_used (pool_baths ?before ! 0) 0"
    by blast
  with free have "\<not> slot_used (pool_baths ?after ! 0) 0"
    by blast
  with h1 show ?thesis
    by (intro conjI)
qed

subsection \<open>Counting baths\<close>

lemma membath_alloc_address:
  assumes "membath_alloc b = Inr (p, b')" and "bath_length b < bath_size b"
  shows "p = bath_data b + bath_firstFree b * bath_itemSize b"
proof -
  from assms(2) have "\<not> bath_size b \<le> bath_length b" by simp
  with assms(1) show ?thesis
    by (auto simp: membath_alloc_def Let_def split: sum.splits)
qed

lemma membath_alloc_needs_map:
  assumes "bath_useMap b = None" and "bath_length b < bath_size b"
  shows "membath_alloc b = Inl Null_Deref"
proof -
  from assms(2) have "\<not> bath_size b \<le> bath_length b" by simp
  with assms(1) show ?thesis
    by (simp add: membath_alloc_def Let_def bitArray_set_def)
qed

lemma ceil_div_step:
  assumes "0 < K" and "1 \<le> m" and "m \<le> K"
  shows "ceil_div (c * K + m) K = c + 1"
proof -
  from assms have e: "c * K + m + K - 1 = (m - 1) + (c + 1) * K"
    by (simp add: algebra_simps)
  from assms have "m - 1 < K" by simp
  then have "((m - 1) + (c + 1) * K) div K = c + 1"
    using assms(1) by (simp only: div_mult_self1 div_less)
  with e show ?thesis
    by (simp only: ceil_div_def)
qed

lemma membath_init_fields:
  assumes "membath_init junk sz isz cok mp = (ok, b)"
  shows "bath_size b = sz" and "bath_itemSize b = isz" and "bath_length b = 0" and "bath_firstFree b = 0"
    and "\<not> cok \<Longrightarrow> bath_useMap b = None" and "cok \<Longrightarrow> bath_data b = mp"
    and "ok \<longleftrightarrow> cok \<and> mp \<noteq> NULL"
  using assms by (auto simp: membath_init_def Let_def split: if_splits)

lemma pool_inv_count:
  assumes "pool_inv k isz pool n" and "0 < unat k"
  shows "length (pool_baths pool) = max 1 (ceil_div n (unat k))"
proof -
  let ?L = "length (pool_baths pool)"
  let ?K = "unat k"
  let ?m = "unat (bath_length (last (pool_baths pool)))"
  from assms(1) have L: "1 \<le> ?L" and n: "n = (?L - 1) * ?K + ?m"
    and pos: "1 < ?L \<longrightarrow> 0 < ?m"
    and "bath_length (last (pool_baths pool)) \<le> k"
    by (auto simp: pool_inv_def bath_counters_def Suc_le_eq)
  then have mK: "?m \<le> ?K" by (simp add: word_le_nat_alt)
  show ?thesis
  proof (cases "?m = 0")
    case True
    with pos L have "?L = 1" by auto
    with n True assms(2) show ?thesis by (simp add: ceil_div_def)
  next
    case False
    then have "1 \<le> ?m" by simp
    from ceil_div_step [OF assms(2) this mK, of "?L - 1"] n L
    have "ceil_div n ?K = ?L" by simp
    with L show ?thesis by simp
  qed
qed

lemma mempool_init_inv:
  assumes init: "mempool_init env junk k isz = (True, pool)"
    and prod: "unat k * unat isz < 2 ^ 64" and bits: "unat k + 31 < 2 ^ 64"
    and heap: "malloc_valid (malloc_ptr env) (unat (k * isz))"
  shows "pool_inv k isz pool 0"
proof -
  from init have aok: "array_ok env"
    by (auto simp: mempool_init_def Let_def split: if_splits)
  obtain ok b where mi: "membath_init (fresh env) k isz (calloc_ok env) (malloc_ptr env) = (ok, b)"
    by (cases "membath_init (fresh env) k isz (calloc_ok env) (malloc_ptr env)")
  with init aok have ok: "ok"
    and pool: "pool = junk\<lparr>pool_length := 1, pool_bathSize := k, pool_itemSize := isz, pool_baths := [b]\<rparr>"
    by (auto simp: mempool_init_def Let_def split: if_splits)
  from mi ok have mi': "membath_init (fresh env) k isz (calloc_ok env) (malloc_ptr env) = (True, b)"
    by simp
  note i = membath_init_inv [OF mi' prod bits heap]
  from i(1) have "bath_counters b" by (simp add: bath_inv_def)
  with i(2-4) show ?thesis
    by (simp add: pool_inv_def pool)
qed

lemma pool_last_index:
  assumes "unat (pool_length pool) = length (pool_baths pool)" and "pool_baths pool \<noteq> []"
  shows "unat (pool_length pool - 1) = length (pool_baths pool) - 1"
    and "bath_at pool (pool_length pool - 1) = Inr (last (pool_baths pool))"
proof -
  from assms have "0 < unat (pool_length pool)" by simp
  then have "unat (pool_length pool - 1) = unat (pool_length pool) - 1"
    by (rule unat_pred_pos)
  with assms(1) show 1: "unat (pool_length pool - 1) = length (pool_baths pool) - 1" by simp
  with assms(2) show "bath_at pool (pool_length pool - 1) = Inr (last (pool_baths pool))"
    by (simp add: bath_at_def last_conv_nth)
qed

lemma mempool_alloc_inv:
  assumes inv: "pool_inv k isz pool n" and kpos: "0 < k"
    and prod: "unat k * unat isz < 2 ^ 64" and bits: "unat k + 31 < 2 ^ 64"
    and heap: "malloc_valid (malloc_ptr env) (unat (k * isz))"
    and al: "mempool_alloc env pool = Inr (p, pool')" and p: "p \<noteq> NULL"
  shows "pool_inv k isz pool' (n + 1)"
proof -
  let ?bs = "pool_baths pool"
  let ?lb = "last ?bs"
  from inv have len: "unat (pool_length pool) = length ?bs" and ne: "?bs \<noteq> []"
    and cnt: "bath_counters ?lb" and sz: "bath_size ?lb = k" and isz: "bath_itemSize ?lb = isz"
    and n: "n = (length ?bs - 1) * unat k + unat (bath_length ?lb)"
    and pk: "pool_bathSize pool = k" and pi: "pool_itemSize pool = isz"
    by (simp_all add: pool_inv_def)
  note li = pool_last_index [OF len ne]
  from ne have upd: "\<And>x. ?bs[length ?bs - 1 := x] = butlast ?bs @ [x]"
    by (metis append_butlast_last_id length_butlast list_update_length)
  from al show ?thesis
  proof (cases rule: mempool_alloc_cases)
    case (served lb lb')
    with li have lb: "lb = ?lb" by simp
    note c = membath_alloc_counters [OF cnt served(2) [unfolded lb]]
    have room: "bath_length ?lb < bath_size ?lb"
      using c(6) served(3) by blast
    from c(5) [OF room] have "unat (bath_length lb') = unat (bath_length ?lb) + 1" by blast
    with c(1-3) served(4) li(1) upd n len ne pk pi sz isz show ?thesis
      by (simp add: pool_inv_def)
  next
    case (stuck lb lb')
    with p show ?thesis by simp
  next
    case (grown lb lb' nb ok nb0 nb')
    with li have lb: "lb = ?lb" by simp
    note c = membath_alloc_counters [OF cnt grown(2) [unfolded lb]]
    from c(5) have full: "\<not> bath_length ?lb < bath_size ?lb" and same: "lb' = ?lb"
      using c(6) by auto
    with cnt sz have "bath_length ?lb = k"
      by (auto simp: bath_counters_def)
    with n ne have n': "n = length ?bs * unat k"
      by (cases "length ?bs") (simp_all add: algebra_simps)
    note g = grown_no_wrap [OF grown(4)]
    note f = membath_init_fields [OF grown(6) [unfolded pk pi]]
    from f(1,3) kpos have room0: "bath_length nb0 < bath_size nb0" by simp
    have cok: "calloc_ok env"
    proof (rule ccontr)
      assume "\<not> calloc_ok env"
      from membath_alloc_needs_map [OF f(5) [OF this] room0] grown(7) show False by simp
    qed
    from membath_alloc_address [OF grown(7) room0] f(4) f(6) [OF cok] p
    have "malloc_ptr env \<noteq> NULL" by auto
    with cok f(7) grown(6) pk pi
    have "membath_init nb k isz (calloc_ok env) (malloc_ptr env) = (True, nb0)" by simp
    from membath_init_inv [OF this prod bits heap]
    have cnt0: "bath_counters nb0" by (simp add: bath_inv_def)
    note c0 = membath_alloc_counters [OF cnt0 grown(7)]
    from c0(5) [OF room0] have "unat (bath_length nb') = unat (bath_length nb0) + 1" by blast
    with f(3) have one: "unat (bath_length nb') = 1" by simp
    from same li(1) ne have "?bs[unat (pool_length pool - 1) := lb'] = ?bs"
      by (simp add: last_conv_nth)
    moreover have "unat (pool_length pool + 1) = Suc (length ?bs)"
      using g(1) len by simp
    moreover have "unat (pool_length pool + 1 - 1) = length ?bs"
      using g(2) len by simp
    ultimately have "pool' = pool\<lparr>pool_length := pool_length pool + 1, pool_baths := ?bs @ [nb']\<rparr>"
      using grown(8) by (simp add: realloc_array_def)
    with c0(1-3) f(1,2) one n' g(1) len pk pi show ?thesis
      by (simp add: pool_inv_def)
  qed
qed

lemma mempool_allocs_inv:
  assumes "pool_inv k isz pool n" and "0 < k"
    and "unat k * unat isz < 2 ^ 64" and "unat k + 31 < 2 ^ 64"
    and "\<forall>env \<in> set envs. malloc_valid (malloc_ptr env) (unat (k * isz))"
    and "mempool_allocs pool envs = Inr (ps, pool')" and "NULL \<notin> set ps"
  shows "pool_inv k isz pool' (n + length envs)"
  using assms(1,5,6,7)
proof (induction envs arbitrary: pool n ps)
  case Nil
  then show ?case by simp
next
  case (Cons env envs)
  from Cons.prems(3) obtain p pool1 ps1 where al: "mempool_alloc env pool = Inr (p, pool1)"
    and rest: "mempool_allocs pool1 envs = Inr (ps1, pool')" and ps: "ps = p # ps1"
    by (auto split: sum.splits)
  from Cons.prems(4) ps have p: "p \<noteq> NULL" and ps1: "NULL \<notin> set ps1" by auto
  from Cons.prems(2) have heap: "malloc_valid (malloc_ptr env) (unat (k * isz))"
    and heaps: "\<forall>env \<in> set envs. malloc_valid (malloc_ptr env) (unat (k * isz))"
    by simp_all
  from mempool_alloc_inv [OF Cons.prems(1) assms(2,3,4) heap al p]
  have "pool_inv k isz pool1 (n + 1)" .
  from Cons.IH [OF this heaps rest ps1] show ?case by simp
qed


text \<open>
  C5, as stated, fails for \<open>n = 0\<close>.  A pool that was just initialised has made no
  allocation and has one bath, while \<open>ceil(0 / k) = 0\<close>.
\<close>

theorem mempool_bath_count_zero_counterexample:
  "mempool_init \<lparr>array_ok = True, fresh = blank_bath, calloc_ok = True, malloc_ptr = 4096\<rparr> blank_pool 2 4
     = (True, \<lparr>pool_length = 1, pool_bathSize = 2, pool_itemSize = 4,
                pool_baths = [\<lparr>bath_size = 2, bath_itemSize = 4, bath_length = 0, bath_firstFree = 0,
                                bath_useMap = Some [0], bath_data = 4096\<rparr>]\<rparr>)
   \<and> mempool_allocs \<lparr>pool_length = 1, pool_bathSize = 2, pool_itemSize = 4,
                pool_baths = [\<lparr>bath_size = 2, bath_itemSize = 4, bath_length = 0, bath_firstFree = 0,
                                bath_useMap = Some [0], bath_data = 4096\<rparr>]\<rparr> []
     = Inr ([], \<lparr>pool_length = 1, pool_bathSize = 2, pool_itemSize = 4,
                pool_baths = [\<lparr>bath_size = 2, bath_itemSize = 4, bath_length = 0, bath_firstFree = 0,
                                bath_useMap = Some [0], bath_data = 4096\<rparr>]\<rparr>)
   \<and> unat (1 :: size_t) \<noteq> ceil_div 0 (unat (2 :: size_t))"
  by code_simp


text \<open>
  C5, amended.  A pool is initialised successfully with baths of \<open>k > 0\<close> items (the
  size computations not wrapping, \<open>malloc\<close> keeping its contract), and \<open>n\<close> calls of
  \<open>mempool_alloc\<close> follow, each returning a non-null address.  Then the pool has
  \<open>max 1 (ceil(n / k))\<close> baths: \<open>ceil(n / k)\<close> for \<open>n \<ge> 1\<close>, and one for \<open>n = 0\<close>.
\<close>

theorem mempool_bath_count:
  assumes "mempool_init env0 junk k isz = (True, pool0)"
    and "0 < k" and "unat k * unat isz < 2 ^ 64" and "unat k + 31 < 2 ^ 64"
    and "\<forall>env \<in> set (env0 # envs). malloc_valid (malloc_ptr env) (unat (k * isz))"
    and "mempool_allocs pool0 envs = Inr (ps, pool)" and "NULL \<notin> set ps"
  shows "unat (pool_length pool) = max 1 (ceil_div (length envs) (unat k))
    \<and> length (pool_baths pool) = unat (pool_length pool)"
proof -
  from assms(5) have h0: "malloc_valid (malloc_ptr env0) (unat (k * isz))"
    and hs: "\<forall>env \<in> set envs. malloc_valid (malloc_ptr env) (unat (k * isz))"
    by simp_all
  from mempool_init_inv [OF assms(1,3,4) h0] have "pool_inv k isz pool0 0" .
  from mempool_allocs_inv [OF this assms(2,3,4) hs assms(6,7)]
  have inv: "pool_inv k isz pool (length envs)" by simp
  from assms(2) have "0 < unat k" by (simp add: word_less_nat_alt)
  from pool_inv_count [OF inv this] inv show ?thesis
    by (simp add: pool_inv_def)
qed

theorem mempool_bath_count_witness:
  "mempool_allocs \<lparr>pool_length = 1, pool_bathSize = 2, pool_itemSize = 4,
                pool_baths = [\<lparr>bath_size = 2, bath_itemSize = 4, bath_length = 0, bath_firstFree = 0,
                                bath_useMap = Some [0], bath_data = 4096\<rparr>]\<rparr>
       [\<lparr>array_ok = True, fresh = blank_bath, calloc_ok = True, malloc_ptr = 8192\<rparr>,
        \<lparr>array_ok = True, fresh = blank_bath, calloc_ok = True, malloc_ptr = 8192\<rparr>,
        \<lparr>array_ok = True, fresh = blank_bath, calloc_ok = True, malloc_ptr = 8192\<rparr>]
     = Inr ([4096, 4100, 8192],
            \<lparr>pool_length = 2, pool_bathSize = 2, pool_itemSize = 4,
               pool_baths = [\<lparr>bath_size = 2, bath_itemSize = 4, bath_length = 2, bath_firstFree = 1,
                               bath_useMap = Some [3], bath_data = 4096\<rparr>,
                             \<lparr>bath_size = 2, bath_itemSize = 4, bath_length = 1, bath_firstFree = 1,
                               bath_useMap = Some [1], bath_data = 8192\<rparr>]\<rparr>)
   \<and> unat (2 :: size_t) = max 1 (ceil_div 3 (unat (2 :: size_t)))"
proof -
  let ?init = "\<lparr>array_ok = True, fresh = blank_bath, calloc_ok = True, malloc_ptr = 4096\<rparr>"
  let ?e = "\<lparr>array_ok = True, fresh = blank_bath, calloc_ok = True, malloc_ptr = 8192\<rparr>"
  let ?start = "\<lparr>pool_length = 1, pool_bathSize = 2, pool_itemSize = 4,
                pool_baths = [\<lparr>bath_size = 2, bath_itemSize = 4, bath_length = 0, bath_firstFree = 0,
                                bath_useMap = Some [0], bath_data = 4096\<rparr>]\<rparr>"
  let ?p = "\<lparr>pool_length = 2, pool_bathSize = 2, pool_itemSize = 4,
               pool_baths = [\<lparr>bath_size = 2, bath_itemSize = 4, bath_length = 2, bath_firstFree = 1,
                               bath_useMap = Some [3], bath_data = 4096\<rparr>,
                             \<lparr>bath_size = 2, bath_itemSize = 4, bath_length = 1, bath_firstFree = 1,
                               bath_useMap = Some [1], bath_data = 8192\<rparr>]\<rparr>"
  have h1: "mempool_init ?init blank_pool 2 4 = (True, ?start)"
    by code_simp
  have h2: "(0 :: size_t) < 2" by simp
  have h3: "unat (2 :: size_t) * unat (4 :: size_t) < 2 ^ 64" by simp
  have h4: "unat (2 :: size_t) + 31 < 2 ^ 64" by simp
  have h5: "\<forall>env \<in> set (?init # [?e, ?e, ?e]). malloc_valid (malloc_ptr env) (unat (2 * 4 :: size_t))"
    by (simp add: malloc_valid_def)
  have h6: "mempool_allocs ?start [?e, ?e, ?e] = Inr ([4096, 4100, 8192], ?p)"
    by code_simp
  have h7: "NULL \<notin> set [4096, 4100, 8192 :: addr]"
    by (simp add: NULL_def)
  from mempool_bath_count [OF h1 h2 h3 h4 h5 h6 h7]
  have "unat (pool_length ?p) = max 1 (ceil_div (length [?e, ?e, ?e]) (unat (2 :: size_t)))"
    by (rule conjunct1)
  then have "unat (2 :: size_t) = max 1 (ceil_div 3 (unat (2 :: size_t)))"
    by (simp add: numeral_3_eq_3)
  with h6 show ?thesis
    by (intro conjI)
qed


subsection \<open>Growth that fails\<close>

text \<open>
  C4.  A pool of baths of one item, after its first allocation: the only bath is full.
  When the next \<open>mempool_alloc\<close> cannot grow the array of baths, it returns \<open>NULL\<close>, but
  the \<open>length\<close> field has been incremented already: the pool now counts two baths and
  owns one, and the call after it reads past the end of the array.  \<open>memriver_alloc\<close>
  does the same through \<open>addCreek\<close>.  When instead the array grows and \<open>calloc\<close> for the
  use-map of the new bath fails, the \<open>NULL\<close> of \<open>membath_init\<close> is not looked at and
  \<open>membath_alloc\<close> writes through the null use-map.
\<close>

theorem mempool_alloc_failed_growth:
  "mempool_allocs
       (snd (mempool_init \<lparr>array_ok = True, fresh = blank_bath, calloc_ok = True, malloc_ptr = 4096\<rparr>
               blank_pool 1 4))
       [\<lparr>array_ok = True, fresh = blank_bath, calloc_ok = True, malloc_ptr = 8192\<rparr>,
        \<lparr>array_ok = False, fresh = blank_bath, calloc_ok = True, malloc_ptr = 8192\<rparr>]
     = Inr ([4096, NULL],
            \<lparr>pool_length = 2, pool_bathSize = 1, pool_itemSize = 4,
               pool_baths = [\<lparr>bath_size = 1, bath_itemSize = 4, bath_length = 1, bath_firstFree = 0,
                               bath_useMap = Some [1], bath_data = 4096\<rparr>]\<rparr>)
   \<and> mempool_alloc \<lparr>array_ok = True, fresh = blank_bath, calloc_ok = True, malloc_ptr = 8192\<rparr>
         \<lparr>pool_length = 2, pool_bathSize = 1, pool_itemSize = 4,
            pool_baths = [\<lparr>bath_size = 1, bath_itemSize = 4, bath_length = 1, bath_firstFree = 0,
                            bath_useMap = Some [1], bath_data = 4096\<rparr>]\<rparr>
     = Inl Out_Of_Bounds
   \<and> mempool_alloc \<lparr>array_ok = True, fresh = blank_bath, calloc_ok = False, malloc_ptr = 8192\<rparr>
         \<lparr>pool_length = 1, pool_bathSize = 1, pool_itemSize = 4,
            pool_baths = [\<lparr>bath_size = 1, bath_itemSize = 4, bath_length = 1, bath_firstFree = 0,
                            bath_useMap = Some [1], bath_data = 4096\<rparr>]\<rparr>
     = Inl Null_Deref
   \<and> memriver_alloc \<lparr>array_ok = False, fresh = blank_creek, calloc_ok = True, malloc_ptr = 8192\<rparr>
         \<lparr>riv_length = 1, riv_creekSize = 16,
            riv_creeks = [\<lparr>creek_size = 16, creek_length = 0, creek_data = 4096\<rparr>]\<rparr> 20
     = Inr (NULL, \<lparr>riv_length = 2, riv_creekSize = 16,
                    riv_creeks = [\<lparr>creek_size = 16, creek_length = 0, creek_data = 4096\<rparr>]\<rparr>)"
  by code_simp

section \<open>Properties of the creek\<close>

text \<open>
  C8.  For a well-formed creek and every requested size, \<open>memcreek_alloc\<close> returns \<open>NULL\<close>
  exactly when \<open>size - length < sz\<close>, and then leaves the creek as it was.  Otherwise it
  returns the address of byte \<open>length\<close> of the buffer and advances \<open>length\<close> by exactly
  \<open>sz\<close> (without wrapping).  In both cases the creek stays well-formed, so
  \<open>0 \<le> length \<le> size\<close> is preserved.
\<close>

theorem memcreek_alloc_spec:
  assumes "creek_ok c"
  shows "(fst (memcreek_alloc c sz) = NULL \<longleftrightarrow> creek_size c - creek_length c < sz)
    \<and> (creek_size c - creek_length c < sz \<longrightarrow> snd (memcreek_alloc c sz) = c)
    \<and> (\<not> creek_size c - creek_length c < sz \<longrightarrow>
          memcreek_alloc c sz = (creek_data c + creek_length c, c\<lparr>creek_length := creek_length c + sz\<rparr>)
        \<and> unat (fst (memcreek_alloc c sz)) = unat (creek_data c) + unat (creek_length c)
        \<and> unat (creek_length (snd (memcreek_alloc c sz))) = unat (creek_length c) + unat sz)
    \<and> creek_ok (snd (memcreek_alloc c sz))"
proof -
  from assms have d: "creek_data c \<noteq> 0" and fit: "unat (creek_data c) + unat (creek_size c) < 2 ^ 64"
    and le: "creek_length c \<le> creek_size c"
    by (simp_all add: creek_ok_def NULL_def)
  from le have ule: "unat (creek_length c) \<le> unat (creek_size c)"
    by (simp add: word_le_nat_alt)
  from le have sub: "unat (creek_size c - creek_length c) = unat (creek_size c) - unat (creek_length c)"
    by (simp add: unat_sub)
  have ptr: "unat (creek_data c + creek_length c) = unat (creek_data c) + unat (creek_length c)"
    using fit ule by (simp add: unat_add_lem [THEN iffD1])
  have nz: "creek_data c + creek_length c \<noteq> 0"
    using ptr d by (metis add_is_0 unat_eq_0)
  show ?thesis
  proof (cases "creek_size c - creek_length c < sz")
    case True
    then show ?thesis using assms by (simp add: memcreek_alloc_def)
  next
    case False
    then have "unat sz \<le> unat (creek_size c) - unat (creek_length c)"
      using sub by (simp add: word_less_nat_alt)
    then have fits: "unat (creek_length c) + unat sz \<le> unat (creek_size c)"
      using ule by arith
    then have adv: "unat (creek_length c + sz) = unat (creek_length c) + unat sz"
      using fit by (simp add: unat_add_lem [THEN iffD1])
    then have "creek_length c + sz \<le> creek_size c"
      using fits by (simp add: word_le_nat_alt)
    then show ?thesis
      using False nz ptr adv d fit by (simp add: memcreek_alloc_def creek_ok_def NULL_def)
  qed
qed

theorem memcreek_alloc_spec_witness:
  "creek_ok \<lparr>creek_size = 16, creek_length = 4, creek_data = 4096\<rparr>
   \<and> memcreek_alloc \<lparr>creek_size = 16, creek_length = 4, creek_data = 4096\<rparr> 8
       = (4100, \<lparr>creek_size = 16, creek_length = 12, creek_data = 4096\<rparr>)
   \<and> fst (memcreek_alloc \<lparr>creek_size = 16, creek_length = 12, creek_data = 4096\<rparr> 8) = NULL"
proof -
  have h: "creek_ok \<lparr>creek_size = 16, creek_length = 4, creek_data = 4096\<rparr>"
    by (simp add: creek_ok_def NULL_def)
  have h': "creek_ok \<lparr>creek_size = 16, creek_length = 12, creek_data = 4096\<rparr>"
    by (simp add: creek_ok_def NULL_def)
  from memcreek_alloc_spec [OF h, of 8] memcreek_alloc_spec [OF h', of 8] h show ?thesis
    by simp
qed

section \<open>Properties of the river\<close>

lemma memcreek_alloc_full:
  "creek_length c = creek_size c \<Longrightarrow> 0 < sz \<Longrightarrow> memcreek_alloc c sz = (NULL, c)"
  by (simp add: memcreek_alloc_def)

lemma addCreek_grows:
  assumes "array_ok env" and "unat (riv_length riv) = length (riv_creeks riv)"
    and "length (riv_creeks riv) + 1 < 2 ^ 64"
  shows "addCreek env riv sz = Inr (Some (length (riv_creeks riv)),
           riv\<lparr>riv_length := riv_length riv + 1,
               riv_creeks := riv_creeks riv @ [snd (memcreek_init (fresh env) sz (malloc_ptr env))]\<rparr>)"
proof -
  from assms(2,3) have "unat (riv_length riv) + unat (1 :: size_t) < 2 ^ LENGTH(64)"
    by simp
  then have "unat (riv_length riv + 1) = unat (riv_length riv) + unat (1 :: size_t)"
    by (rule unat_add_lem [THEN iffD1])
  with assms(2) have len: "unat (riv_length riv + 1) = Suc (length (riv_creeks riv))"
    by simp
  have last: "unat (riv_length riv + 1 - 1) = length (riv_creeks riv)"
    using assms(2) by simp
  show ?thesis
    using assms(1) len last
    by (simp add: addCreek_def Let_def creek_at_def realloc_array_grow split: prod.splits)
qed

lemma memcreek_init_result:
  "mp \<noteq> NULL \<Longrightarrow> memcreek_init c sz mp = (True, \<lparr>creek_size = sz, creek_length = 0, creek_data = mp\<rparr>)"
  by (cases c) (simp add: memcreek_init_def)

lemma memriver_alloc_oversize:
  assumes "array_ok env" and "malloc_ptr env \<noteq> NULL"
    and "unat (riv_length riv) = length (riv_creeks riv)"
    and "length (riv_creeks riv) + 1 < 2 ^ 64"
    and "riv_creekSize riv < sz"
  shows "memriver_alloc env riv sz = Inr (malloc_ptr env,
           riv\<lparr>riv_length := riv_length riv + 1,
               riv_creeks := riv_creeks riv
                 @ [\<lparr>creek_size = sz, creek_length = sz, creek_data = malloc_ptr env\<rparr>]\<rparr>)"
  using assms(5) addCreek_grows [OF assms(1,3,4), of sz] memcreek_init_result [OF assms(2)]
  by (simp add: memriver_alloc_def memriver_alloc_new_def memcreek_alloc_def)

lemma memriver_alloc_scan_keeps:
  assumes "memriver_alloc_scan riv sz i = Inr (p, riv')" and "0 < sz"
  shows "length (riv_creeks riv') = length (riv_creeks riv) \<and> riv_length riv' = riv_length riv
    \<and> riv_creekSize riv' = riv_creekSize riv
    \<and> (\<forall>k < length (riv_creeks riv).
          creek_length (riv_creeks riv ! k) = creek_size (riv_creeks riv ! k)
          \<longrightarrow> riv_creeks riv' ! k = riv_creeks riv ! k)"
  using assms
proof (induction riv sz i arbitrary: p riv' rule: memriver_alloc_scan.induct)
  case (1 riv sz i)
  show ?case
  proof (cases "0 < i")
    case False
    with "1.prems"(1) show ?thesis
      by (subst (asm) memriver_alloc_scan.simps) simp
  next
    case True
    with "1.prems"(1) obtain c where c: "creek_at riv (i - 1) = Inr c"
      by (subst (asm) memriver_alloc_scan.simps) (auto split: sum.splits)
    obtain ret c' where a: "memcreek_alloc c sz = (ret, c')"
      by (cases "memcreek_alloc c sz")
    let ?riv1 = "riv\<lparr>riv_creeks := (riv_creeks riv)[unat (i - 1) := c']\<rparr>"
    from c have ci: "unat (i - 1) < length (riv_creeks riv)" "c = riv_creeks riv ! unat (i - 1)"
      by (auto simp: creek_at_def split: if_splits)
    have keep1: "riv_creeks ?riv1 ! k = riv_creeks riv ! k"
      if "k < length (riv_creeks riv)" "creek_length (riv_creeks riv ! k) = creek_size (riv_creeks riv ! k)"
      for k
    proof (cases "k = unat (i - 1)")
      case True
      with that ci(2) have "creek_length c = creek_size c" by simp
      from memcreek_alloc_full [OF this "1.prems"(2)] a have "c' = c" by simp
      with True ci show ?thesis by simp
    next
      case False
      then show ?thesis by simp
    qed
    show ?thesis
    proof (cases "ret \<noteq> NULL")
      case True
      with \<open>0 < i\<close> c a "1.prems"(1) have "riv' = ?riv1"
        by (subst (asm) memriver_alloc_scan.simps) simp
      with keep1 show ?thesis by simp
    next
      case False
      with \<open>0 < i\<close> c a "1.prems"(1) have r: "memriver_alloc_scan ?riv1 sz (i - 1) = Inr (p, riv')"
        by (subst (asm) memriver_alloc_scan.simps) simp
      from "1.IH" [OF \<open>0 < i\<close> c a [symmetric] _ r "1.prems"(2)] False
      have ih: "length (riv_creeks riv') = length (riv_creeks ?riv1) \<and> riv_length riv' = riv_length ?riv1
        \<and> riv_creekSize riv' = riv_creekSize ?riv1
        \<and> (\<forall>k < length (riv_creeks ?riv1).
          creek_length (riv_creeks ?riv1 ! k) = creek_size (riv_creeks ?riv1 ! k)
          \<longrightarrow> riv_creeks riv' ! k = riv_creeks ?riv1 ! k)"
        by simp
      show ?thesis
      proof (intro conjI allI impI)
        fix k
        assume k: "k < length (riv_creeks riv)"
          and f: "creek_length (riv_creeks riv ! k) = creek_size (riv_creeks riv ! k)"
        from keep1 [OF k f] have e: "riv_creeks ?riv1 ! k = riv_creeks riv ! k" .
        with f k ih show "riv_creeks riv' ! k = riv_creeks riv ! k"
          by simp
      qed (use ih in simp_all)
    qed
  qed
qed

lemma addCreek_keeps:
  assumes ac: "addCreek env riv csz = Inr (crk, riv')"
    and k: "k < length (riv_creeks riv)" and le: "length (riv_creeks riv) \<le> unat (riv_length riv)"
    and room: "unat (riv_length riv) + 1 < 2 ^ 64"
  shows "k < length (riv_creeks riv') \<and> riv_creeks riv' ! k = riv_creeks riv ! k
    \<and> length (riv_creeks riv') \<le> unat (riv_length riv')
    \<and> unat (riv_length riv') = unat (riv_length riv) + 1
    \<and> riv_creekSize riv' = riv_creekSize riv
    \<and> (\<forall>j. crk = Some j \<longrightarrow> j \<noteq> k \<and> j < length (riv_creeks riv'))"
proof -
  from room have "unat (riv_length riv) + unat (1 :: size_t) < 2 ^ LENGTH(64)"
    by simp
  then have "unat (riv_length riv + 1) = unat (riv_length riv) + unat (1 :: size_t)"
    by (rule unat_add_lem [THEN iffD1])
  then have len: "unat (riv_length riv + 1) = Suc (unat (riv_length riv))"
    by simp
  show ?thesis
  proof (cases "array_ok env")
    case False
    with ac have "crk = None" "riv' = riv\<lparr>riv_length := riv_length riv + 1\<rparr>"
      by (simp_all add: addCreek_def Let_def)
    with k le len show ?thesis by simp
  next
    case True
    let ?cs = "realloc_array (riv_creeks riv) (unat (riv_length riv + 1)) (fresh env)"
    let ?n = "unat (riv_length riv)"
    have l: "length ?cs = Suc ?n"
      by (simp add: realloc_array_length len)
    from k le have kn: "k < Suc ?n" by simp
    from realloc_array_keeps [OF k, of "unat (riv_length riv + 1)" "fresh env"] kn len
    have kk: "?cs ! k = riv_creeks riv ! k"
      by simp
    from True ac l
    have "crk = Some ?n"
      and "riv' = riv\<lparr>riv_length := riv_length riv + 1,
              riv_creeks := ?cs[?n := snd (memcreek_init (?cs ! ?n) csz (malloc_ptr env))]\<rparr>"
      by (auto simp: addCreek_def Let_def creek_at_def split: prod.splits)
    with k le len l kk show ?thesis by simp
  qed
qed

lemma memriver_alloc_new_keeps:
  assumes an: "memriver_alloc_new env riv csz sz = Inr (p, riv')"
    and k: "k < length (riv_creeks riv)" and le: "length (riv_creeks riv) \<le> unat (riv_length riv)"
    and room: "unat (riv_length riv) + 1 < 2 ^ 64"
  shows "k < length (riv_creeks riv') \<and> riv_creeks riv' ! k = riv_creeks riv ! k
    \<and> length (riv_creeks riv') \<le> unat (riv_length riv')
    \<and> unat (riv_length riv') = unat (riv_length riv) + 1"
proof -
  from an obtain crk riv1 where ac: "addCreek env riv csz = Inr (crk, riv1)"
    by (auto simp: memriver_alloc_new_def split: sum.splits)
  note a = addCreek_keeps [OF ac k le room]
  show ?thesis
  proof (cases crk)
    case None
    with an ac have "riv' = riv1" by (simp add: memriver_alloc_new_def)
    with a show ?thesis by simp
  next
    case (Some j)
    with an ac obtain c' where "riv' = riv1\<lparr>riv_creeks := (riv_creeks riv1)[j := c']\<rparr>"
      by (auto simp: memriver_alloc_new_def split: prod.splits)
    with a Some show ?thesis by simp
  qed
qed

lemma memriver_alloc_keeps:
  assumes al: "memriver_alloc env riv sz = Inr (p, riv')" and pos: "0 < sz"
    and k: "k < length (riv_creeks riv)" and le: "length (riv_creeks riv) \<le> unat (riv_length riv)"
    and room: "unat (riv_length riv) + 1 < 2 ^ 64"
    and full: "creek_length (riv_creeks riv ! k) = creek_size (riv_creeks riv ! k)"
  shows "k < length (riv_creeks riv') \<and> riv_creeks riv' ! k = riv_creeks riv ! k
    \<and> length (riv_creeks riv') \<le> unat (riv_length riv')
    \<and> unat (riv_length riv') \<le> unat (riv_length riv) + 1"
proof (cases "riv_creekSize riv < sz")
  case True
  with al have "memriver_alloc_new env riv sz sz = Inr (p, riv')"
    by (simp add: memriver_alloc_def)
  from memriver_alloc_new_keeps [OF this k le room] show ?thesis by simp
next
  case False
  with al obtain ret riv1 where sc: "memriver_alloc_scan riv sz (riv_length riv) = Inr (ret, riv1)"
    by (auto simp: memriver_alloc_def split: sum.splits)
  note s = memriver_alloc_scan_keeps [OF sc pos]
  from s k full have k1: "k < length (riv_creeks riv1)"
    and e1: "riv_creeks riv1 ! k = riv_creeks riv ! k"
    by simp_all
  from s le have le1: "length (riv_creeks riv1) \<le> unat (riv_length riv1)" by simp
  from s room have room1: "unat (riv_length riv1) + 1 < 2 ^ 64" by simp
  show ?thesis
  proof (cases "ret = NULL")
    case True
    with False al sc have "memriver_alloc_new env riv1 (riv_creekSize riv1) sz = Inr (p, riv')"
      by (simp add: memriver_alloc_def)
    from memriver_alloc_new_keeps [OF this k1 le1 room1] e1 s show ?thesis by simp
  next
    case nn: False
    with False al sc have "riv' = riv1"
      by (simp add: memriver_alloc_def)
    with k1 e1 le1 s show ?thesis by simp
  qed
qed

lemma memriver_allocs_keeps:
  assumes "memriver_allocs riv reqs = Inr (ps, riv')"
    and "\<forall>r \<in> set reqs. 0 < snd r"
    and "k < length (riv_creeks riv)" and "length (riv_creeks riv) \<le> unat (riv_length riv)"
    and "unat (riv_length riv) + length reqs < 2 ^ 64"
    and "creek_length (riv_creeks riv ! k) = creek_size (riv_creeks riv ! k)"
  shows "k < length (riv_creeks riv') \<and> riv_creeks riv' ! k = riv_creeks riv ! k"
  using assms
proof (induction reqs arbitrary: riv ps)
  case Nil
  then show ?case by simp
next
  case (Cons r reqs)
  obtain env sz where r: "r = (env, sz)" by (cases r)
  with Cons.prems(1) obtain p riv1 ps1 where al: "memriver_alloc env riv sz = Inr (p, riv1)"
    and rest: "memriver_allocs riv1 reqs = Inr (ps1, riv')"
    by (auto split: sum.splits)
  from Cons.prems(2) r have pos: "0 < sz" and poss: "\<forall>r \<in> set reqs. 0 < snd r"
    by simp_all
  from Cons.prems(5) have room: "unat (riv_length riv) + 1 < 2 ^ 64"
    by simp
  note s = memriver_alloc_keeps [OF al pos Cons.prems(3,4) room Cons.prems(6)]
  from s Cons.prems(5) have room1: "unat (riv_length riv1) + length reqs < 2 ^ 64"
    by simp
  from s Cons.prems(6) have full1: "creek_length (riv_creeks riv1 ! k) = creek_size (riv_creeks riv1 ! k)"
    by simp
  from Cons.IH [OF rest poss _ _ room1 full1] s show ?case
    by simp
qed


text \<open>
  C7, as stated, fails.  A river with creeks of 16 bytes gets a request of 20 bytes and
  adds a creek of exactly 20 bytes, which the request fills.  A later request of 0 bytes
  (\<open>0 \<le> 16\<close>) is served from that creek all the same: the scan starts at the last creek,
  \<open>memcreek_alloc\<close> accepts 0 bytes from a full creek, and the address returned is the
  one-past-the-end address \<open>8192 + 20\<close> of the oversized creek.
\<close>

theorem memriver_alloc_zero_counterexample:
  "memriver_alloc \<lparr>array_ok = True, fresh = blank_creek, calloc_ok = True, malloc_ptr = 8192\<rparr>
       \<lparr>riv_length = 1, riv_creekSize = 16,
          riv_creeks = [\<lparr>creek_size = 16, creek_length = 0, creek_data = 4096\<rparr>]\<rparr> 20
     = Inr (8192, \<lparr>riv_length = 2, riv_creekSize = 16,
                    riv_creeks = [\<lparr>creek_size = 16, creek_length = 0, creek_data = 4096\<rparr>,
                                  \<lparr>creek_size = 20, creek_length = 20, creek_data = 8192\<rparr>]\<rparr>)
   \<and> (0 :: size_t) \<le> 16
   \<and> memriver_alloc \<lparr>array_ok = True, fresh = blank_creek, calloc_ok = True, malloc_ptr = 12288\<rparr>
       \<lparr>riv_length = 2, riv_creekSize = 16,
          riv_creeks = [\<lparr>creek_size = 16, creek_length = 0, creek_data = 4096\<rparr>,
                        \<lparr>creek_size = 20, creek_length = 20, creek_data = 8192\<rparr>]\<rparr> 0
     = Inr (8212, \<lparr>riv_length = 2, riv_creekSize = 16,
                    riv_creeks = [\<lparr>creek_size = 16, creek_length = 0, creek_data = 4096\<rparr>,
                                  \<lparr>creek_size = 20, creek_length = 20, creek_data = 8192\<rparr>]\<rparr>)
   \<and> served_from \<lparr>riv_length = 2, riv_creekSize = 16,
          riv_creeks = [\<lparr>creek_size = 16, creek_length = 0, creek_data = 4096\<rparr>,
                        \<lparr>creek_size = 20, creek_length = 20, creek_data = 8192\<rparr>]\<rparr> 1 0 8212"
  by code_simp


text \<open>
  C7, amended.  A river whose \<open>length\<close> counts its creeks gets a request larger than its
  creek size, and the growth of the array and the \<open>malloc\<close> of the buffer succeed.  Then
  \<open>memriver_alloc\<close> returns the start of the new buffer and leaves the river \<open>riv1\<close>:
  the old creeks untouched and one new creek appended, of exactly the requested size, and
  full.  After any further requests of non-zero size (as many as leave the creek
  count below \<open>2 ^ 64\<close>), that creek is still in its place and unchanged, and no request
  of non-zero size is served from it.
\<close>

theorem memriver_alloc_oversize_dedicated:
  assumes "array_ok env" and "malloc_ptr env \<noteq> NULL"
    and "unat (riv_length riv) = length (riv_creeks riv)"
    and "riv_creekSize riv < sz"
    and "\<forall>r \<in> set reqs. 0 < snd r"
    and "length (riv_creeks riv) + 1 + length reqs < 2 ^ 64"
    and "riv1 = riv\<lparr>riv_length := riv_length riv + 1,
               riv_creeks := riv_creeks riv
                 @ [\<lparr>creek_size = sz, creek_length = sz, creek_data = malloc_ptr env\<rparr>]\<rparr>"
    and "memriver_allocs riv1 reqs = Inr (ps, riv2)"
  shows "memriver_alloc env riv sz = Inr (malloc_ptr env, riv1)
    \<and> length (riv_creeks riv) < length (riv_creeks riv2)
    \<and> riv_creeks riv2 ! length (riv_creeks riv)
         = \<lparr>creek_size = sz, creek_length = sz, creek_data = malloc_ptr env\<rparr>
    \<and> (\<forall>s p. 0 < s \<longrightarrow> \<not> served_from riv2 (length (riv_creeks riv)) s p)"
proof -
  let ?k = "length (riv_creeks riv)"
  let ?c = "\<lparr>creek_size = sz, creek_length = sz, creek_data = malloc_ptr env\<rparr>"
  from assms(6) have room: "?k + 1 < 2 ^ 64" by simp
  from memriver_alloc_oversize [OF assms(1,2,3) room assms(4)] assms(7)
  have 1: "memriver_alloc env riv sz = Inr (malloc_ptr env, riv1)" by simp
  from room assms(3) have "unat (riv_length riv) + unat (1 :: size_t) < 2 ^ LENGTH(64)"
    by simp
  then have "unat (riv_length riv + 1) = unat (riv_length riv) + unat (1 :: size_t)"
    by (rule unat_add_lem [THEN iffD1])
  with assms(3,7) have len1: "unat (riv_length riv1) = ?k + 1" by simp
  from assms(7) have k1: "?k < length (riv_creeks riv1)" and c1: "riv_creeks riv1 ! ?k = ?c"
    by simp_all
  from assms(7) len1 have le1: "length (riv_creeks riv1) \<le> unat (riv_length riv1)" by simp
  from len1 assms(6) have room1: "unat (riv_length riv1) + length reqs < 2 ^ 64" by simp
  from c1 have full1: "creek_length (riv_creeks riv1 ! ?k) = creek_size (riv_creeks riv1 ! ?k)" by simp
  from memriver_allocs_keeps [OF assms(8,5) k1 le1 room1 full1] c1
  have 2: "?k < length (riv_creeks riv2)" "riv_creeks riv2 ! ?k = ?c" by simp_all
  have 3: "\<not> served_from riv2 ?k s p" if "0 < s" for s p
    using memcreek_alloc_full [of ?c s] that 2 by (auto simp: served_from_def)
  from 1 2 3 show ?thesis by blast
qed

theorem memriver_alloc_oversize_dedicated_witness:
  "memriver_alloc \<lparr>array_ok = True, fresh = blank_creek, calloc_ok = True, malloc_ptr = 8192\<rparr>
       \<lparr>riv_length = 1, riv_creekSize = 16,
          riv_creeks = [\<lparr>creek_size = 16, creek_length = 0, creek_data = 4096\<rparr>]\<rparr> 20
     = Inr (8192, \<lparr>riv_length = 2, riv_creekSize = 16,
                    riv_creeks = [\<lparr>creek_size = 16, creek_length = 0, creek_data = 4096\<rparr>,
                                  \<lparr>creek_size = 20, creek_length = 20, creek_data = 8192\<rparr>]\<rparr>)
   \<and> memriver_allocs \<lparr>riv_length = 2, riv_creekSize = 16,
                    riv_creeks = [\<lparr>creek_size = 16, creek_length = 0, creek_data = 4096\<rparr>,
                                  \<lparr>creek_size = 20, creek_length = 20, creek_data = 8192\<rparr>]\<rparr>
        [(\<lparr>array_ok = True, fresh = blank_creek, calloc_ok = True, malloc_ptr = 12288\<rparr>, 8)]
     = Inr ([4096], \<lparr>riv_length = 2, riv_creekSize = 16,
                    riv_creeks = [\<lparr>creek_size = 16, creek_length = 8, creek_data = 4096\<rparr>,
                                  \<lparr>creek_size = 20, creek_length = 20, creek_data = 8192\<rparr>]\<rparr>)
   \<and> \<not> served_from \<lparr>riv_length = 2, riv_creekSize = 16,
                    riv_creeks = [\<lparr>creek_size = 16, creek_length = 8, creek_data = 4096\<rparr>,
                                  \<lparr>creek_size = 20, creek_length = 20, creek_data = 8192\<rparr>]\<rparr> 1 8 4104"
proof -
  let ?env = "\<lparr>array_ok = True, fresh = blank_creek, calloc_ok = True, malloc_ptr = 8192\<rparr>"
  let ?riv = "\<lparr>riv_length = 1, riv_creekSize = 16,
          riv_creeks = [\<lparr>creek_size = 16, creek_length = 0, creek_data = 4096\<rparr>]\<rparr>"
  let ?reqs = "[(\<lparr>array_ok = True, fresh = blank_creek, calloc_ok = True, malloc_ptr = 12288\<rparr>, 8 :: size_t)]"
  let ?riv1 = "\<lparr>riv_length = 2, riv_creekSize = 16,
                    riv_creeks = [\<lparr>creek_size = 16, creek_length = 0, creek_data = 4096\<rparr>,
                                  \<lparr>creek_size = 20, creek_length = 20, creek_data = 8192\<rparr>]\<rparr>"
  let ?riv2 = "\<lparr>riv_length = 2, riv_creekSize = 16,
                    riv_creeks = [\<lparr>creek_size = 16, creek_length = 8, creek_data = 4096\<rparr>,
                                  \<lparr>creek_size = 20, creek_length = 20, creek_data = 8192\<rparr>]\<rparr>"
  have h1: "array_ok ?env" by simp
  have h2: "malloc_ptr ?env \<noteq> NULL" by (simp add: NULL_def)
  have h3: "unat (riv_length ?riv) = length (riv_creeks ?riv)" by simp
  have h4: "riv_creekSize ?riv < 20" by simp
  have h5: "\<forall>r \<in> set ?reqs. 0 < snd r" by simp
  have h6: "length (riv_creeks ?riv) + 1 + length ?reqs < 2 ^ 64" by simp
  have h7: "?riv1 = ?riv\<lparr>riv_length := riv_length ?riv + 1,
               riv_creeks := riv_creeks ?riv
                 @ [\<lparr>creek_size = 20, creek_length = 20, creek_data = malloc_ptr ?env\<rparr>]\<rparr>"
    by simp
  have h8: "memriver_allocs ?riv1 ?reqs = Inr ([4096], ?riv2)"
    by code_simp
  from memriver_alloc_oversize_dedicated [OF h1 h2 h3 h4 h5 h6 h7 h8] h8
  show ?thesis by simp
qed

end
